theory Spec2Isabelle
  imports
    Complex_Main
    "HOL-Library.AList"
    "HOL-Library.Char_ord"
    "HOL-Library.List_Lexorder"
    "HOL-Library.Multiset"
    "HOL-Library.Product_Lexorder"
begin

section \<open>The data of \<^verbatim>\<open>dijkstra_visualizer.py\<close>\<close>

text \<open>
  In this first reading of the program the edge weights are Python integers
  (unbounded, of either sign; the program checks neither). A distance is such an
  integer or the sentinel \<^verbatim>\<open>float('inf')\<close>. The order is the one Python's \<^verbatim>\<open><\<close> computes
  between the two: every integer is below the sentinel. The program with \<^verbatim>\<open>float\<close>
  weights, where sums are rounded and can reach the sentinel, is the subject of a
  section of its own below.
\<close>

datatype dist = Finite int | Infinity

instantiation dist :: linorder
begin

fun less_eq_dist :: "dist \<Rightarrow> dist \<Rightarrow> bool" where
  "less_eq_dist (Finite a) (Finite b) = (a \<le> b)"
| "less_eq_dist (Finite a) Infinity = True"
| "less_eq_dist Infinity (Finite b) = False"
| "less_eq_dist Infinity Infinity = True"

fun less_dist :: "dist \<Rightarrow> dist \<Rightarrow> bool" where
  "less_dist (Finite a) (Finite b) = (a < b)"
| "less_dist (Finite a) Infinity = True"
| "less_dist Infinity (Finite b) = False"
| "less_dist Infinity Infinity = False"

instance
proof
  fix x y z :: dist
  show "(x < y) = (x \<le> y \<and> \<not> y \<le> x)"
    by (cases x; cases y) auto
  show "x \<le> x"
    by (cases x) auto
  show "x \<le> y \<Longrightarrow> y \<le> z \<Longrightarrow> x \<le> z"
    by (cases x; cases y; cases z) auto
  show "x \<le> y \<Longrightarrow> y \<le> x \<Longrightarrow> x = y"
    by (cases x; cases y) auto
  show "x \<le> y \<or> y \<le> x"
    by (cases x; cases y) auto
qed

end

text \<open>
  A Python \<^verbatim>\<open>dict\<close> is an association list in insertion order; its keys are distinct.
  \<^verbatim>\<open>d[k]\<close> is \<^const>\<open>map_of\<close> (\<open>None\<close> is the \<^verbatim>\<open>KeyError\<close>), and \<^verbatim>\<open>d[k] = v\<close> is
  \<^const>\<open>AList.update\<close>: an existing key keeps its place, a new key goes to the end.
  Nothing below needs the keys of a list to be distinct: every lookup reads the first
  binding of a key, as the dictionary would read its only one. Node identifiers are
  of a linearly ordered type (strings, integers), as the comparison of queue entries
  with equal distances requires.
\<close>

type_synonym 'n graph = "('n \<times> ('n \<times> int) list) list"

type_synonym 'n table = "('n \<times> dist) list"

datatype 'n error = KeyError 'n

text \<open>
  The two kinds of dictionaries appended to \<^verbatim>\<open>self.steps\<close>. \<^verbatim>\<open>list(visited)\<close> lists a
  set in the order of Python's hash table, which the program does not control: the
  snapshot is kept as the set of its elements here, and as a list in that order in the
  second reading of the program below.
\<close>

datatype 'n event =
    Visit_node (current_node_of: 'n) (distances_of: "'n table") (visited_nodes_of: "'n set")
  | Relax_edge (from_of: 'n) (to_of: 'n) (updated_distance_of: int) (distances_of: "'n table")

text \<open>The object: \<^verbatim>\<open>self.graph\<close> and \<^verbatim>\<open>self.steps\<close>.\<close>

record 'n engine =
  graph :: "'n graph"
  steps :: "'n event list"

text \<open>The object together with the local variables of \<^verbatim>\<open>run\<close>.\<close>

record 'n run_state = "'n engine" +
  distances :: "'n table"
  visited :: "'n set"
  priority_queue :: "(int \<times> 'n) list"

text \<open>\<^verbatim>\<open>__init__\<close>: the graph is stored as it is given, the trace starts empty.\<close>

definition init_engine :: "'n graph \<Rightarrow> 'n engine" where
  "init_engine g = \<lparr>graph = g, steps = []\<rparr>"

text \<open>The object alone, when the call is over and its local variables are gone.\<close>

definition engine_of :: "'n run_state \<Rightarrow> 'n engine" where
  "engine_of st = \<lparr>graph = graph st, steps = steps st\<rparr>"

section \<open>The priority queue\<close>

text \<open>
  \<^verbatim>\<open>heapq\<close> keeps the pairs \<^verbatim>\<open>(distance, node)\<close> in a list. \<^verbatim>\<open>heappop\<close> removes and
  returns the smallest pair, and Python compares tuples lexicographically: first the
  distance, then the node identifier. The pairs are totally ordered, so which pair is
  returned and which pairs remain does not depend on the layout of the heap; the queue
  is modelled as the list of its pairs.
\<close>

definition heappush :: "(int \<times> 'n) list \<Rightarrow> int \<times> 'n \<Rightarrow> (int \<times> 'n) list" where
  "heappush q x = q @ [x]"

definition heappop :: "(int \<times> 'n::linorder) list \<Rightarrow> (int \<times> 'n) \<times> (int \<times> 'n) list" where
  "heappop q = (min_list q, remove1 (min_list q) q)"

section \<open>The algorithm\<close>

text \<open>
  The body of the \<^verbatim>\<open>for\<close> loop, for one item of
  \<^verbatim>\<open>self.graph[current_node].items()\<close>. A neighbour that is not a key of \<^verbatim>\<open>distances\<close>
  raises \<^verbatim>\<open>KeyError\<close> at \<^verbatim>\<open>distances[neighbor]\<close>; the exception leaves the object as it
  is at that moment.
\<close>

definition relax_edge ::
  "'n \<Rightarrow> int \<Rightarrow> 'n \<times> int \<Rightarrow> 'n run_state \<Rightarrow> ('n error \<times> 'n engine) + 'n run_state"
where
  "relax_edge current_node current_distance item st =
     (case item of (neighbor, weight) \<Rightarrow>
        if neighbor \<notin> visited st then
          (let new_distance = current_distance + weight in
           case map_of (distances st) neighbor of
             None \<Rightarrow> Inl (KeyError neighbor, engine_of st)
           | Some old \<Rightarrow>
               if Finite new_distance < old then
                 (let distances' = AList.update neighbor (Finite new_distance) (distances st) in
                  Inr (st\<lparr>distances := distances',
                          priority_queue := heappush (priority_queue st) (new_distance, neighbor),
                          steps := steps st @
                            [Relax_edge current_node neighbor new_distance distances']\<rparr>))
               else Inr st)
        else Inr st)"

text \<open>The \<^verbatim>\<open>for\<close> loop: the items in the order of the dictionary, up to the first exception.\<close>

fun relax_edges ::
  "'n \<Rightarrow> int \<Rightarrow> ('n \<times> int) list \<Rightarrow> 'n run_state \<Rightarrow> ('n error \<times> 'n engine) + 'n run_state"
where
  "relax_edges current_node current_distance [] st = Inr st"
| "relax_edges current_node current_distance (item # rest) st =
     (case relax_edge current_node current_distance item st of
        Inl err \<Rightarrow> Inl err
      | Inr st' \<Rightarrow> relax_edges current_node current_distance rest st')"

text \<open>One pass through the body of the \<^verbatim>\<open>while\<close> loop, entered with a non-empty queue.\<close>

definition iteration :: "('n::linorder) run_state \<Rightarrow> ('n error \<times> 'n engine) + 'n run_state" where
  "iteration st =
     (case heappop (priority_queue st) of
        ((current_distance, current_node), q) \<Rightarrow>
          if current_node \<in> visited st then Inr (st\<lparr>priority_queue := q\<rparr>)
          else
            (let visited' = insert current_node (visited st);
                 st' = st\<lparr>priority_queue := q, visited := visited',
                         steps := steps st @
                           [Visit_node current_node (distances st) visited']\<rparr>
             in case map_of (graph st) current_node of
                  None \<Rightarrow> Inl (KeyError current_node, engine_of st')
                | Some neighbors \<Rightarrow> relax_edges current_node current_distance neighbors st'))"

text \<open>
  \<^verbatim>\<open>while priority_queue:\<close>. Nothing in the text of the loop bounds the number of passes,
  so not returning is a possible value (\<open>None\<close>).
\<close>

partial_function (option) main_loop ::
  "('n::linorder) run_state \<Rightarrow> (('n error \<times> 'n engine) + 'n run_state) option"
where
  "main_loop st =
     (if priority_queue st = [] then Some (Inr st)
      else case iteration st of
             Inl err \<Rightarrow> Some (Inl err)
           | Inr st' \<Rightarrow> main_loop st')"

declare main_loop.simps [code]

text \<open>
  \<^verbatim>\<open>run\<close>: the result is the exception or the pair \<^verbatim>\<open>(distances, self.steps)\<close>, together
  with the object after the call.
\<close>

definition init_state :: "'n engine \<Rightarrow> 'n \<Rightarrow> 'n run_state" where
  "init_state e start_node =
     \<lparr>graph = graph e, steps = steps e,
      distances = AList.update start_node (Finite 0) (map (\<lambda>(node, _). (node, Infinity)) (graph e)),
      visited = {},
      priority_queue = [(0, start_node)]\<rparr>"

definition run ::
  "('n::linorder) engine \<Rightarrow> 'n \<Rightarrow> (('n error + 'n table \<times> 'n event list) \<times> 'n engine) option"
where
  "run e start_node =
     (case main_loop (init_state e start_node) of
        None \<Rightarrow> None
      | Some (Inl (err, e')) \<Rightarrow> Some (Inl err, e')
      | Some (Inr st) \<Rightarrow> Some (Inr (distances st, steps st), engine_of st))"

text \<open>The graph of the module's example execution.\<close>

definition example_graph :: "string graph" where
  "example_graph =
     [(''A'', [(''B'', 4), (''C'', 1)]),
      (''B'', [(''A'', 4), (''C'', 2), (''D'', 5)]),
      (''C'', [(''A'', 1), (''B'', 2), (''D'', 8)]),
      (''D'', [(''B'', 5), (''C'', 8)])]"

text \<open>The graph of the disconnected scenario: \<^verbatim>\<open>C\<close> cannot be reached from \<^verbatim>\<open>A\<close>.\<close>

definition disconnected_graph :: "string graph" where
  "disconnected_graph = [(''A'', [(''B'', 1)]), (''B'', []), (''C'', [])]"

section \<open>Notions used in the statements\<close>

text \<open>The keys of a dictionary.\<close>

definition keys :: "('k \<times> 'v) list \<Rightarrow> 'k set" where
  "keys d = fst ` set d"

text \<open>
  The conditions on the input: every neighbour named in the graph is a key of the
  graph, and no weight is negative.
\<close>

definition wf_graph :: "'n graph \<Rightarrow> bool" where
  "wf_graph g \<longleftrightarrow> (\<forall>(u, nbrs) \<in> set g. \<forall>(v, w) \<in> set nbrs. v \<in> keys g)"

definition nonneg_weights :: "'n graph \<Rightarrow> bool" where
  "nonneg_weights g \<longleftrightarrow> (\<forall>(u, nbrs) \<in> set g. \<forall>(v, w) \<in> set nbrs. 0 \<le> w)"

text \<open>
  Paths, by exhaustive enumeration: \<open>walk g u v x\<close> says that some sequence of edges of
  \<open>g\<close> leads from \<open>u\<close> to \<open>v\<close> and that its weights add up to \<open>x\<close>. The edges of a node
  are the items of \<^verbatim>\<open>self.graph[node]\<close>. The true shortest-path distance from \<open>u\<close> to \<open>v\<close>
  is the least such \<open>x\<close>, and \<open>v\<close> can be reached from \<open>u\<close> when there is such an \<open>x\<close>.
\<close>

inductive walk :: "'n graph \<Rightarrow> 'n \<Rightarrow> 'n \<Rightarrow> int \<Rightarrow> bool" for g u where
  walk_here: "walk g u u 0"
| walk_edge: "walk g u v x \<Longrightarrow> map_of g v = Some nbrs \<Longrightarrow> (t, w) \<in> set nbrs \<Longrightarrow>
     walk g u t (x + w)"

text \<open>
  The events of one call: what \<^verbatim>\<open>self.steps\<close> holds after the call, beyond what it held
  before.
\<close>

definition new_events :: "'n engine \<Rightarrow> ('n, 'a) engine_scheme \<Rightarrow> 'n event list" where
  "new_events e e' = drop (length (steps e)) (steps e')"

text \<open>
  The \<^verbatim>\<open>visit_node\<close> events of a trace, in order: their nodes and the visited sets they
  record.
\<close>

fun visit_order :: "'n event list \<Rightarrow> 'n list" where
  "visit_order [] = []"
| "visit_order (Visit_node n snap V # evs) = n # visit_order evs"
| "visit_order (Relax_edge f t nd snap # evs) = visit_order evs"

fun visit_sets :: "'n event list \<Rightarrow> 'n set list" where
  "visit_sets [] = []"
| "visit_sets (Visit_node n snap V # evs) = V # visit_sets evs"
| "visit_sets (Relax_edge f t nd snap # evs) = visit_sets evs"

text \<open>The states in which the \<^verbatim>\<open>while\<close> condition is tested, from a first state on.\<close>

inductive loop_reach :: "('n::linorder) run_state \<Rightarrow> 'n run_state \<Rightarrow> bool" for st0 where
  loop_start: "loop_reach st0 st0"
| loop_pass:
    "loop_reach st0 st \<Longrightarrow> priority_queue st \<noteq> [] \<Longrightarrow> iteration st = Inr st' \<Longrightarrow>
     loop_reach st0 st'"


definition disconnected_trace :: "string event list" where
  "disconnected_trace =
     [Visit_node ''A'' [(''A'', Finite 0), (''B'', Infinity), (''C'', Infinity)] {''A''},
      Relax_edge ''A'' ''B'' 1 [(''A'', Finite 0), (''B'', Finite 1), (''C'', Infinity)],
      Visit_node ''B'' [(''A'', Finite 0), (''B'', Finite 1), (''C'', Infinity)] {''A'', ''B''}]"

section \<open>Notions used in the proofs\<close>

text \<open>
  The work left in a state of the loop: the pairs in the queue, and for every entry of
  the graph whose node is not visited yet, one pass plus one push for each of its edges.
\<close>

definition unvisited_work :: "'n set \<Rightarrow> 'n graph \<Rightarrow> nat" where
  "unvisited_work V g =
     sum_list (map (\<lambda>(u, nbrs). Suc (length nbrs)) (filter (\<lambda>(u, nbrs). u \<notin> V) g))"

definition pending :: "'n run_state \<Rightarrow> nat" where
  "pending st = length (priority_queue st) + unvisited_work (visited st) (graph st)"

text \<open>
  A call on an object that already holds a trace: the events held before the call are
  put in front of whatever the call leaves in \<^verbatim>\<open>self.steps\<close>.
\<close>

definition with_history ::
  "'n event list \<Rightarrow> ('n error \<times> 'n engine) + 'n run_state \<Rightarrow> ('n error \<times> 'n engine) + 'n run_state"
where
  "with_history pre r =
     (case r of
        Inl (err, e) \<Rightarrow> Inl (err, e\<lparr>steps := pre @ steps e\<rparr>)
      | Inr st \<Rightarrow> Inr (st\<lparr>steps := pre @ steps st\<rparr>))"

text \<open>
  The execution of \<^verbatim>\<open>run\<close> in smaller steps, with the place in the program text: at the
  test of the \<^verbatim>\<open>while\<close> loop; after the \<^verbatim>\<open>visit_node\<close> event and before
  \<^verbatim>\<open>self.graph[current_node]\<close> is read; inside the \<^verbatim>\<open>for\<close> loop, with the items already
  handled and those still to come. Every pass of \<^const>\<open>iteration\<close> is a sequence of
  such steps (\<open>iteration_reach\<close> below), so what holds in all these states holds in
  every state of a run.
\<close>

datatype 'n phase =
    Loop_head
  | Visiting 'n int
  | Relaxing 'n int "('n \<times> int) list" "('n \<times> int) list"

inductive reach :: "('n::linorder) engine \<Rightarrow> 'n \<Rightarrow> 'n run_state \<Rightarrow> 'n phase \<Rightarrow> bool"
  for e start
where
  reach_init: "reach e start (init_state e start) Loop_head"
| reach_stale:
    "reach e start st Loop_head \<Longrightarrow> priority_queue st \<noteq> [] \<Longrightarrow>
     heappop (priority_queue st) = ((cd, cn), q) \<Longrightarrow> cn \<in> visited st \<Longrightarrow>
     reach e start (st\<lparr>priority_queue := q\<rparr>) Loop_head"
| reach_visit:
    "reach e start st Loop_head \<Longrightarrow> priority_queue st \<noteq> [] \<Longrightarrow>
     heappop (priority_queue st) = ((cd, cn), q) \<Longrightarrow> cn \<notin> visited st \<Longrightarrow>
     reach e start
       (st\<lparr>priority_queue := q, visited := insert cn (visited st),
           steps := steps st @ [Visit_node cn (distances st) (insert cn (visited st))]\<rparr>)
       (Visiting cn cd)"
| reach_lookup:
    "reach e start st (Visiting cn cd) \<Longrightarrow> map_of (graph st) cn = Some nbrs \<Longrightarrow>
     reach e start st (Relaxing cn cd [] nbrs)"
| reach_relax:
    "reach e start st (Relaxing cn cd done (item # rest)) \<Longrightarrow>
     relax_edge cn cd item st = Inr st' \<Longrightarrow>
     reach e start st' (Relaxing cn cd (done @ [item]) rest)"
| reach_done:
    "reach e start st (Relaxing cn cd done []) \<Longrightarrow> reach e start st Loop_head"

text \<open>The two places where an exception is raised, and the object it leaves behind.\<close>

definition stuck :: "('n::linorder) engine \<Rightarrow> 'n \<Rightarrow> 'n error \<Rightarrow> 'n engine \<Rightarrow> bool" where
  "stuck e start err e' \<longleftrightarrow>
     (\<exists>st cn cd. reach e start st (Visiting cn cd) \<and> map_of (graph st) cn = None \<and>
        err = KeyError cn \<and> e' = engine_of st) \<or>
     (\<exists>st cn cd done nb w rest. reach e start st (Relaxing cn cd done ((nb, w) # rest)) \<and>
        nb \<notin> visited st \<and> map_of (distances st) nb = None \<and>
        err = KeyError nb \<and> e' = engine_of st)"

text \<open>
  Queue and table: every pair in the queue is at least the recorded distance of its
  node; the recorded distance of a node that is not visited is in the queue; a visited
  node has a finite recorded distance; and the node whose edges are being relaxed is
  visited, has the popped distance as its entry, and has the items of the loop as its
  edges.
\<close>

definition queue_sound :: "'n run_state \<Rightarrow> bool" where
  "queue_sound st \<longleftrightarrow>
     (\<forall>(x, v) \<in> set (priority_queue st).
        \<exists>y. map_of (distances st) v = Some (Finite y) \<and> y \<le> x)"

definition queue_complete :: "'n run_state \<Rightarrow> bool" where
  "queue_complete st \<longleftrightarrow>
     (\<forall>v y. v \<notin> visited st \<longrightarrow> map_of (distances st) v = Some (Finite y) \<longrightarrow>
        (y, v) \<in> set (priority_queue st))"

definition visited_finite :: "'n run_state \<Rightarrow> bool" where
  "visited_finite st \<longleftrightarrow> (\<forall>v \<in> visited st. \<exists>y. map_of (distances st) v = Some (Finite y))"

definition phase_inv :: "'n engine \<Rightarrow> 'n run_state \<Rightarrow> 'n phase \<Rightarrow> bool" where
  "phase_inv e st ph =
     (case ph of
        Loop_head \<Rightarrow> True
      | Visiting cn cd \<Rightarrow> cn \<in> visited st \<and> map_of (distances st) cn = Some (Finite cd)
      | Relaxing cn cd done rest \<Rightarrow>
          cn \<in> visited st \<and> map_of (distances st) cn = Some (Finite cd) \<and>
          map_of (graph e) cn = Some (done @ rest))"

text \<open>
  The tables recorded in a trace form a chain from the table \<open>prev\<close> before its first
  event: a \<^verbatim>\<open>visit_node\<close> event records the table as it is, a \<^verbatim>\<open>relax_edge\<close> event records
  it with the entry of the destination replaced by a strictly smaller distance.
  \<^term>\<open>last_table d evs\<close> is the table after the events \<open>evs\<close>.
\<close>

fun event_ok :: "'n table \<Rightarrow> 'n event \<Rightarrow> bool" where
  "event_ok prev (Visit_node n snap V) = (snap = prev)"
| "event_ok prev (Relax_edge f t nd snap) =
     (case map_of prev t of
        None \<Rightarrow> False
      | Some old \<Rightarrow> Finite nd < old \<and> snap = AList.update t (Finite nd) prev)"

fun trace_chain :: "'n table \<Rightarrow> 'n event list \<Rightarrow> bool" where
  "trace_chain d [] = True"
| "trace_chain d (ev # evs) = (event_ok d ev \<and> trace_chain (distances_of ev) evs)"

definition last_table :: "'n table \<Rightarrow> 'n event list \<Rightarrow> 'n table" where
  "last_table d evs = (if evs = [] then d else distances_of (last evs))"

definition chain_inv :: "('n::linorder) engine \<Rightarrow> 'n \<Rightarrow> 'n run_state \<Rightarrow> 'n phase \<Rightarrow> bool" where
  "chain_inv e s st ph \<longleftrightarrow>
     trace_chain (distances (init_state e s)) (new_events e st) \<and>
     last_table (distances (init_state e s)) (new_events e st) = distances st \<and>
     (ph \<noteq> Loop_head \<longrightarrow> new_events e st \<noteq> [])"

text \<open>No entry of \<open>d'\<close> is greater than the entry of \<open>d\<close> for the same node.\<close>

definition table_le :: "'n table \<Rightarrow> 'n table \<Rightarrow> bool" where
  "table_le d' d \<longleftrightarrow> (\<forall>v x. map_of d v = Some x \<longrightarrow> (\<exists>y. map_of d' v = Some y \<and> y \<le> x))"

text \<open>
  A \<^verbatim>\<open>relax_edge\<close> event records, as the new distance, the source's entry in its own
  table plus the weight of an edge from the source to the destination. The first
  event of a run is a \<^verbatim>\<open>visit_node\<close> event.
\<close>

definition relax_sound :: "'n graph \<Rightarrow> 'n event \<Rightarrow> bool" where
  "relax_sound g ev =
     (case ev of
        Visit_node n snap V \<Rightarrow> True
      | Relax_edge f t nd snap \<Rightarrow>
          (\<exists>nbrs w cd. map_of g f = Some nbrs \<and> (t, w) \<in> set nbrs \<and>
             map_of snap f = Some (Finite cd) \<and> nd = cd + w))"

definition first_is_visit :: "'n event list \<Rightarrow> bool" where
  "first_is_visit evs \<longleftrightarrow>
     (case evs of
        [] \<Rightarrow> True
      | Visit_node n snap V # rest \<Rightarrow> True
      | Relax_edge f t nd snap # rest \<Rightarrow> False)"

text \<open>
  The \<^verbatim>\<open>visit_node\<close> events and the visited set: the nodes of the events are distinct and
  make up the visited set, the \<open>k\<close>-th of them records the first \<open>k\<close> nodes, and the
  node being handled is the one visited last.
\<close>

definition visits_inv :: "('n::linorder) engine \<Rightarrow> 'n run_state \<Rightarrow> 'n phase \<Rightarrow> bool" where
  "visits_inv e st ph \<longleftrightarrow>
     distinct (visit_order (new_events e st)) \<and>
     set (visit_order (new_events e st)) = visited st \<and>
     length (visit_sets (new_events e st)) = length (visit_order (new_events e st)) \<and>
     (\<forall>k < length (visit_order (new_events e st)).
        visit_sets (new_events e st) ! k = set (take (Suc k) (visit_order (new_events e st)))) \<and>
     (case ph of
        Loop_head \<Rightarrow> True
      | Visiting cn cd \<Rightarrow>
          visit_order (new_events e st) \<noteq> [] \<and> last (visit_order (new_events e st)) = cn
      | Relaxing cn cd done rest \<Rightarrow>
          visit_order (new_events e st) \<noteq> [] \<and> last (visit_order (new_events e st)) = cn)"

text \<open>
  The edges of a visited node that the \<^verbatim>\<open>for\<close> loop has already handled: all of them,
  except for the node whose edges are being relaxed.
\<close>

definition edges_of :: "'n graph \<Rightarrow> 'n \<Rightarrow> ('n \<times> int) list" where
  "edges_of g u = (case map_of g u of None \<Rightarrow> [] | Some nbrs \<Rightarrow> nbrs)"

definition handled :: "'n graph \<Rightarrow> 'n phase \<Rightarrow> 'n \<Rightarrow> ('n \<times> int) list" where
  "handled g ph u =
     (case ph of
        Loop_head \<Rightarrow> edges_of g u
      | Visiting cn cd \<Rightarrow> if u = cn then [] else edges_of g u
      | Relaxing cn cd done rest \<Rightarrow> if u = cn then done else edges_of g u)"

text \<open>
  The invariants of the shortest-path argument: a finite entry of the table is the
  weight of a path from the start; the entry of the start is at most 0; the target of
  a handled edge out of a visited node has a finite entry; and, the two that need
  weights that are not negative, the entry of a visited node is at most the weight of
  every path to it, and along a handled edge out of a visited node the entry of the
  target is at most the entry of the source plus the weight.
\<close>

definition path_sound :: "'n graph \<Rightarrow> 'n \<Rightarrow> 'n run_state \<Rightarrow> bool" where
  "path_sound g s st \<longleftrightarrow>
     (\<forall>v y. map_of (distances st) v = Some (Finite y) \<longrightarrow> walk g s v y)"

definition start_le :: "'n \<Rightarrow> 'n run_state \<Rightarrow> bool" where
  "start_le s st \<longleftrightarrow> (\<exists>y\<le>0. map_of (distances st) s = Some (Finite y))"

definition edges_seen :: "'n graph \<Rightarrow> 'n run_state \<Rightarrow> 'n phase \<Rightarrow> bool" where
  "edges_seen g st ph \<longleftrightarrow>
     (\<forall>u \<in> visited st. \<forall>(v, w) \<in> set (handled g ph u).
        \<exists>y. map_of (distances st) v = Some (Finite y))"

definition optimal :: "'n graph \<Rightarrow> 'n \<Rightarrow> 'n run_state \<Rightarrow> bool" where
  "optimal g s st \<longleftrightarrow>
     (\<forall>v \<in> visited st. \<forall>y z.
        map_of (distances st) v = Some (Finite y) \<longrightarrow> walk g s v z \<longrightarrow> y \<le> z)"

definition edges_relaxed :: "'n graph \<Rightarrow> 'n run_state \<Rightarrow> 'n phase \<Rightarrow> bool" where
  "edges_relaxed g st ph \<longleftrightarrow>
     (\<forall>u \<in> visited st. \<forall>(v, w) \<in> set (handled g ph u).
        \<exists>x y. map_of (distances st) u = Some (Finite x) \<and>
              map_of (distances st) v = Some (Finite y) \<and> y \<le> x + w)"

section \<open>The program on Python's numbers\<close>

text \<open>
  The text of the program does not fix the type of the weights: \<^verbatim>\<open>+\<close> and \<^verbatim>\<open><\<close> are those
  of the numbers found in the graph, and the sentinel \<^verbatim>\<open>float('inf')\<close> is a number among
  them. This section reads the same program with Python's \<^verbatim>\<open>int\<close> and \<^verbatim>\<open>float\<close> as
  weights. On a graph whose weights are all integers the two readings agree
  (\<open>integer_weights_agree\<close> below); they part where a sum of \<^verbatim>\<open>float\<close> weights is rounded
  or reaches \<^verbatim>\<open>inf\<close>.

  A \<^verbatim>\<open>float\<close> is an IEEE 754 double: not a number, one of the two infinities, or a
  finite value \<open>m \<sqdot> 2\<^sup>e\<close> with a significand \<open>m\<close> of at most 53 binary digits, written
  \<open>Finite_double m e\<close>. The two zeros are not told apart (they are equal for \<^verbatim>\<open>==\<close> and
  \<^verbatim>\<open><\<close>).
\<close>

datatype double = Finite_double int int | Pos_inf | Neg_inf | Not_a_number

datatype number = Py_int int | Py_float double

text \<open>\<^verbatim>\<open>int.bit_length\<close>: the number of binary digits of a positive integer.\<close>

function bit_length :: "int \<Rightarrow> nat" where
  "bit_length n = (if n \<le> 0 then 0 else Suc (bit_length (n div 2)))"
  by pat_completeness auto

termination
  by (relation "measure nat") auto

declare bit_length.simps [simp del]

text \<open>
  The double of value \<open>m \<sqdot> 2\<^sup>e\<close>, for \<open>m\<close> of at most 53 binary digits, written with an
  odd significand (zero as \<open>0 \<sqdot> 2\<^sup>0\<close>), so that a double is written in one way.
\<close>

function normal :: "int \<Rightarrow> int \<Rightarrow> double" where
  "normal m e =
     (if m = 0 then Finite_double 0 0
      else if even m then normal (m div 2) (e + 1)
      else Finite_double m e)"
  by pat_completeness auto

termination
  by (relation "measure (\<lambda>(m, e). nat \<bar>m\<bar>)") auto

declare normal.simps [simp del]

text \<open>
  Rounding of an exact value \<open>m \<sqdot> 2\<^sup>e\<close> to the nearest double, ties to the even
  significand: the 53 leading binary digits of \<open>m\<close> are kept, and a result of \<open>2\<^sup>1\<^sup>0\<^sup>2\<^sup>4\<close> or
  more is an infinity. (No sum of two doubles is too small for its exponent, so nothing
  is rounded at the lower end.)
\<close>

definition round_double :: "int \<Rightarrow> int \<Rightarrow> double" where
  "round_double m e =
     (let a = \<bar>m\<bar>;
          sh = bit_length a - 53;
          q = a div 2 ^ sh;
          r = a mod 2 ^ sh;
          q' = (if 2 ^ (sh - 1) < r \<or> (r = 2 ^ (sh - 1) \<and> odd q) then q + 1 else q)
      in if m \<noteq> 0 \<and> 1024 < int (bit_length q') + (e + int sh)
         then (if 0 < m then Pos_inf else Neg_inf)
         else normal (sgn m * q') (e + int sh))"

text \<open>The sum of two doubles: the exact sum, rounded.\<close>

fun double_add :: "double \<Rightarrow> double \<Rightarrow> double" where
  "double_add (Finite_double m1 e1) (Finite_double m2 e2) =
     round_double (m1 * 2 ^ nat (e1 - min e1 e2) + m2 * 2 ^ nat (e2 - min e1 e2)) (min e1 e2)"
| "double_add (Finite_double m e) y = y"
| "double_add Pos_inf (Finite_double m e) = Pos_inf"
| "double_add Pos_inf Pos_inf = Pos_inf"
| "double_add Pos_inf Neg_inf = Not_a_number"
| "double_add Neg_inf (Finite_double m e) = Neg_inf"
| "double_add Neg_inf Neg_inf = Neg_inf"
| "double_add Neg_inf Pos_inf = Not_a_number"
| "double_add x Not_a_number = Not_a_number"
| "double_add Not_a_number y = Not_a_number"

text \<open>
  \<^verbatim>\<open>a + b\<close>. Two integers are added exactly. When one operand is a \<^verbatim>\<open>float\<close>, an integer
  operand is converted to the nearest double first, and an integer too large for a
  double raises \<^verbatim>\<open>OverflowError\<close> (\<open>None\<close>).
\<close>

definition to_double :: "number \<Rightarrow> double option" where
  "to_double x =
     (case x of
        Py_float f \<Rightarrow> Some f
      | Py_int n \<Rightarrow>
          (case round_double n 0 of
             Finite_double m e \<Rightarrow> Some (Finite_double m e)
           | _ \<Rightarrow> None))"

definition number_add :: "number \<Rightarrow> number \<Rightarrow> number option" where
  "number_add x y =
     (case (x, y) of
        (Py_int a, Py_int b) \<Rightarrow> Some (Py_int (a + b))
      | _ \<Rightarrow>
          (case (to_double x, to_double y) of
             (Some f, Some g) \<Rightarrow> Some (Py_float (double_add f g))
           | _ \<Rightarrow> None))"

text \<open>
  \<^verbatim>\<open>a < b\<close> and \<^verbatim>\<open>a == b\<close>. Python compares an integer and a \<^verbatim>\<open>float\<close> by their exact
  values, without rounding the integer (\<open>exact\<close> writes an integer \<open>n\<close> as \<open>n \<sqdot> 2\<^sup>0\<close>,
  whatever its size); every comparison with not-a-number is false.
\<close>

fun double_less :: "double \<Rightarrow> double \<Rightarrow> bool" where
  "double_less (Finite_double m1 e1) (Finite_double m2 e2) =
     (m1 * 2 ^ nat (e1 - min e1 e2) < m2 * 2 ^ nat (e2 - min e1 e2))"
| "double_less (Finite_double m e) Pos_inf = True"
| "double_less Neg_inf (Finite_double m e) = True"
| "double_less Neg_inf Pos_inf = True"
| "double_less x y = False"

fun double_eq :: "double \<Rightarrow> double \<Rightarrow> bool" where
  "double_eq (Finite_double m1 e1) (Finite_double m2 e2) =
     (m1 * 2 ^ nat (e1 - min e1 e2) = m2 * 2 ^ nat (e2 - min e1 e2))"
| "double_eq Pos_inf Pos_inf = True"
| "double_eq Neg_inf Neg_inf = True"
| "double_eq x y = False"

definition exact :: "number \<Rightarrow> double" where
  "exact x = (case x of Py_int n \<Rightarrow> Finite_double n 0 | Py_float f \<Rightarrow> f)"

definition number_less :: "number \<Rightarrow> number \<Rightarrow> bool" where
  "number_less x y = double_less (exact x) (exact y)"

definition number_eq :: "number \<Rightarrow> number \<Rightarrow> bool" where
  "number_eq x y = double_eq (exact x) (exact y)"

text \<open>
  The data of the program over these numbers. The set \<^verbatim>\<open>visited\<close> is kept as the list of
  its elements in the order in which they were added, and \<^verbatim>\<open>list(visited)\<close> lists them
  in the order in which Python iterates over the set. That order comes from the hash
  values of the elements, which for strings change from one interpreter process to
  the next; it is a parameter \<open>enum\<close> of the run, a function of the history of the set.
\<close>

type_synonym 'n graph_py = "('n \<times> ('n \<times> number) list) list"

type_synonym 'n table_py = "('n \<times> number) list"

datatype 'n error_py = KeyError_py 'n | OverflowError_py

datatype 'n event_py =
    Visit_node_py 'n "'n table_py" "'n list"
  | Relax_edge_py 'n 'n number "'n table_py"

record 'n engine_py =
  graph_py :: "'n graph_py"
  steps_py :: "'n event_py list"

record 'n run_state_py = "'n engine_py" +
  distances_py :: "'n table_py"
  visited_py :: "'n list"
  priority_queue_py :: "(number \<times> 'n) list"

definition init_engine_py :: "'n graph_py \<Rightarrow> 'n engine_py" where
  "init_engine_py g = \<lparr>graph_py = g, steps_py = []\<rparr>"

definition engine_of_py :: "'n run_state_py \<Rightarrow> 'n engine_py" where
  "engine_of_py st = \<lparr>graph_py = graph_py st, steps_py = steps_py st\<rparr>"

text \<open>
  The comparison of two pairs \<^verbatim>\<open>(distance, node)\<close>: by the distances when they differ
  for \<^verbatim>\<open>==\<close>, by the node identifiers when they do not. \<^verbatim>\<open>heappop\<close> returns a pair that
  no pair of the queue is below; of several such pairs, the model takes the first.
\<close>

definition pair_less :: "number \<times> 'n::linorder \<Rightarrow> number \<times> 'n \<Rightarrow> bool" where
  "pair_less x y =
     (if number_eq (fst x) (fst y) then snd x < snd y else number_less (fst x) (fst y))"

fun least_pair :: "number \<times> 'n::linorder \<Rightarrow> (number \<times> 'n) list \<Rightarrow> number \<times> 'n" where
  "least_pair x [] = x"
| "least_pair x (y # ys) = least_pair (if pair_less y x then y else x) ys"

definition heappush_py :: "(number \<times> 'n) list \<Rightarrow> number \<times> 'n \<Rightarrow> (number \<times> 'n) list" where
  "heappush_py q x = q @ [x]"

definition heappop_py ::
  "(number \<times> 'n::linorder) list \<Rightarrow> (number \<times> 'n) \<times> (number \<times> 'n) list"
where
  "heappop_py q = (let x = least_pair (hd q) (tl q) in (x, remove1 x q))"

text \<open>
  The body of the \<^verbatim>\<open>for\<close> loop. The sum is computed before \<^verbatim>\<open>distances[neighbor]\<close> is
  read, so an \<^verbatim>\<open>OverflowError\<close> comes before a \<^verbatim>\<open>KeyError\<close>.
\<close>

definition relax_edge_py ::
  "'n \<Rightarrow> number \<Rightarrow> 'n \<times> number \<Rightarrow> 'n run_state_py \<Rightarrow>
     ('n error_py \<times> 'n engine_py) + 'n run_state_py"
where
  "relax_edge_py current_node current_distance item st =
     (case item of (neighbor, weight) \<Rightarrow>
        if neighbor \<notin> set (visited_py st) then
          (case number_add current_distance weight of
             None \<Rightarrow> Inl (OverflowError_py, engine_of_py st)
           | Some new_distance \<Rightarrow>
               (case map_of (distances_py st) neighbor of
                  None \<Rightarrow> Inl (KeyError_py neighbor, engine_of_py st)
                | Some old \<Rightarrow>
                    if number_less new_distance old then
                      (let distances' = AList.update neighbor new_distance (distances_py st) in
                       Inr (st\<lparr>distances_py := distances',
                               priority_queue_py :=
                                 heappush_py (priority_queue_py st) (new_distance, neighbor),
                               steps_py := steps_py st @
                                 [Relax_edge_py current_node neighbor new_distance distances']\<rparr>))
                    else Inr st))
        else Inr st)"

fun relax_edges_py ::
  "'n \<Rightarrow> number \<Rightarrow> ('n \<times> number) list \<Rightarrow> 'n run_state_py \<Rightarrow>
     ('n error_py \<times> 'n engine_py) + 'n run_state_py"
where
  "relax_edges_py current_node current_distance [] st = Inr st"
| "relax_edges_py current_node current_distance (item # rest) st =
     (case relax_edge_py current_node current_distance item st of
        Inl err \<Rightarrow> Inl err
      | Inr st' \<Rightarrow> relax_edges_py current_node current_distance rest st')"

definition iteration_py ::
  "('n list \<Rightarrow> 'n list) \<Rightarrow> ('n::linorder) run_state_py \<Rightarrow>
     ('n error_py \<times> 'n engine_py) + 'n run_state_py"
where
  "iteration_py enum st =
     (case heappop_py (priority_queue_py st) of
        ((current_distance, current_node), q) \<Rightarrow>
          if current_node \<in> set (visited_py st) then Inr (st\<lparr>priority_queue_py := q\<rparr>)
          else
            (let visited' = visited_py st @ [current_node];
                 st' = st\<lparr>priority_queue_py := q, visited_py := visited',
                         steps_py := steps_py st @
                           [Visit_node_py current_node (distances_py st) (enum visited')]\<rparr>
             in case map_of (graph_py st) current_node of
                  None \<Rightarrow> Inl (KeyError_py current_node, engine_of_py st')
                | Some neighbors \<Rightarrow>
                    relax_edges_py current_node current_distance neighbors st'))"

partial_function (option) main_loop_py ::
  "('n list \<Rightarrow> 'n list) \<Rightarrow> ('n::linorder) run_state_py \<Rightarrow>
     (('n error_py \<times> 'n engine_py) + 'n run_state_py) option"
where
  "main_loop_py enum st =
     (if priority_queue_py st = [] then Some (Inr st)
      else case iteration_py enum st of
             Inl err \<Rightarrow> Some (Inl err)
           | Inr st' \<Rightarrow> main_loop_py enum st')"

declare main_loop_py.simps [code]

definition init_state_py :: "'n engine_py \<Rightarrow> 'n \<Rightarrow> 'n run_state_py" where
  "init_state_py e start_node =
     \<lparr>graph_py = graph_py e, steps_py = steps_py e,
      distances_py =
        AList.update start_node (Py_int 0)
          (map (\<lambda>(node, _). (node, Py_float Pos_inf)) (graph_py e)),
      visited_py = [],
      priority_queue_py = [(Py_int 0, start_node)]\<rparr>"

definition run_py ::
  "('n list \<Rightarrow> 'n list) \<Rightarrow> ('n::linorder) engine_py \<Rightarrow> 'n \<Rightarrow>
     (('n error_py + 'n table_py \<times> 'n event_py list) \<times> 'n engine_py) option"
where
  "run_py enum e start_node =
     (case main_loop_py enum (init_state_py e start_node) of
        None \<Rightarrow> None
      | Some (Inl (err, e')) \<Rightarrow> Some (Inl err, e')
      | Some (Inr st) \<Rightarrow> Some (Inr (distances_py st, steps_py st), engine_of_py st))"

text \<open>
  Notions for the statements about these runs. The states in which the \<^verbatim>\<open>while\<close>
  condition is tested:
\<close>

inductive loop_reach_py ::
  "('n list \<Rightarrow> 'n list) \<Rightarrow> ('n::linorder) run_state_py \<Rightarrow> 'n run_state_py \<Rightarrow> bool"
  for enum st0
where
  loop_start_py: "loop_reach_py enum st0 st0"
| loop_pass_py:
    "loop_reach_py enum st0 st \<Longrightarrow> priority_queue_py st \<noteq> [] \<Longrightarrow>
     iteration_py enum st = Inr st' \<Longrightarrow> loop_reach_py enum st0 st'"

text \<open>What \<^verbatim>\<open>self.steps\<close> holds after a pass of the loop, whether it raised or not.\<close>

definition steps_after :: "('n error_py \<times> 'n engine_py) + 'n run_state_py \<Rightarrow> 'n event_py list" where
  "steps_after r = (case r of Inl (err, e) \<Rightarrow> steps_py e | Inr st \<Rightarrow> steps_py st)"

text \<open>
  An order of iteration lists the elements of the set, each once. \<open>reorder enum\<close> lists
  the visited nodes of an event in the order \<open>enum\<close>, given the event that lists them in
  the order in which they were added; \<open>sorted_nodes\<close> lists them in ascending order,
  whatever order the event has them in.
\<close>

definition enumeration :: "('n list \<Rightarrow> 'n list) \<Rightarrow> bool" where
  "enumeration enum \<longleftrightarrow> (\<forall>h. mset (enum h) = mset h)"

fun reorder :: "('n list \<Rightarrow> 'n list) \<Rightarrow> 'n event_py \<Rightarrow> 'n event_py" where
  "reorder enum (Visit_node_py n snap h) = Visit_node_py n snap (enum h)"
| "reorder enum (Relax_edge_py f t nd snap) = Relax_edge_py f t nd snap"

fun sorted_nodes :: "('n::linorder) event_py \<Rightarrow> 'n event_py" where
  "sorted_nodes (Visit_node_py n snap h) = Visit_node_py n snap (sort h)"
| "sorted_nodes (Relax_edge_py f t nd snap) = Relax_edge_py f t nd snap"

text \<open>The result of a call, with the visited nodes of every event listed in the order \<open>enum\<close>.\<close>

definition reordered ::
  "('n list \<Rightarrow> 'n list) \<Rightarrow>
   ('n error_py + 'n table_py \<times> 'n event_py list) \<times> 'n engine_py \<Rightarrow>
   ('n error_py + 'n table_py \<times> 'n event_py list) \<times> 'n engine_py"
where
  "reordered enum x =
     (case x of (r, e) \<Rightarrow>
        (case r of
           Inl err \<Rightarrow> Inl err
         | Inr (d, tr) \<Rightarrow> Inr (d, map (reorder enum) tr),
         e\<lparr>steps_py := map (reorder enum) (steps_py e)\<rparr>))"

text \<open>Notions for the proofs: the work left, as for the integer weights.\<close>

definition unvisited_work_py :: "'n set \<Rightarrow> 'n graph_py \<Rightarrow> nat" where
  "unvisited_work_py V g =
     sum_list (map (\<lambda>(u, nbrs). Suc (length nbrs)) (filter (\<lambda>(u, nbrs). u \<notin> V) g))"

definition pending_py :: "'n run_state_py \<Rightarrow> nat" where
  "pending_py st =
     length (priority_queue_py st) + unvisited_work_py (set (visited_py st)) (graph_py st)"

text \<open>The same state, or result of a pass, with the events of the trace mapped by \<open>f\<close>.\<close>

definition map_steps ::
  "('n event_py \<Rightarrow> 'n event_py) \<Rightarrow> ('n error_py \<times> 'n engine_py) + 'n run_state_py \<Rightarrow>
   ('n error_py \<times> 'n engine_py) + 'n run_state_py"
where
  "map_steps f r =
     (case r of
        Inl (err, e) \<Rightarrow> Inl (err, e\<lparr>steps_py := map f (steps_py e)\<rparr>)
      | Inr st \<Rightarrow> Inr (st\<lparr>steps_py := map f (steps_py st)\<rparr>))"

text \<open>
  The value of a number other than not-a-number, in a linear order: the infinities
  below and above all finite values.
\<close>

definition double_key :: "double \<Rightarrow> int \<times> real" where
  "double_key d =
     (case d of
        Finite_double m e \<Rightarrow> (0, of_int m * 2 powi e)
      | Pos_inf \<Rightarrow> (1, 0)
      | Neg_inf \<Rightarrow> (- 1, 0)
      | Not_a_number \<Rightarrow> (2, 0))"

definition pair_key :: "number \<times> 'n \<Rightarrow> (int \<times> real) \<times> 'n" where
  "pair_key x = (double_key (exact (fst x)), snd x)"

definition queue_numbers :: "'n run_state_py \<Rightarrow> bool" where
  "queue_numbers st \<longleftrightarrow> (\<forall>(d, n) \<in> set (priority_queue_py st). exact d \<noteq> Not_a_number)"

text \<open>
  Two orders of iteration: the order in which the elements were added, and its
  reverse (\<^const>\<open>rev\<close>).
\<close>

definition insertion_order :: "'n list \<Rightarrow> 'n list" where
  "insertion_order h = h"

text \<open>
  A graph on which two pairs of the queue tie: after the pass for \<^verbatim>\<open>A\<close> the queue holds
  \<^verbatim>\<open>(1, 'C')\<close> and \<^verbatim>\<open>(1, 'B')\<close>, pushed in this order. \<open>tie_state\<close> is the state after that
  pass, in a run that lists sets in reverse.
\<close>

definition tie_graph :: "string graph_py" where
  "tie_graph = [(''A'', [(''C'', Py_int 1), (''B'', Py_int 1)]), (''B'', []), (''C'', [])]"

definition tie_state :: "string run_state_py" where
  "tie_state =
     \<lparr>graph_py = tie_graph,
      steps_py =
        [Visit_node_py ''A''
           [(''A'', Py_int 0), (''B'', Py_float Pos_inf), (''C'', Py_float Pos_inf)] [''A''],
         Relax_edge_py ''A'' ''C'' (Py_int 1)
           [(''A'', Py_int 0), (''B'', Py_float Pos_inf), (''C'', Py_int 1)],
         Relax_edge_py ''A'' ''B'' (Py_int 1)
           [(''A'', Py_int 0), (''B'', Py_int 1), (''C'', Py_int 1)]],
      distances_py = [(''A'', Py_int 0), (''B'', Py_int 1), (''C'', Py_int 1)],
      visited_py = [''A''],
      priority_queue_py = [(Py_int 1, ''C''), (Py_int 1, ''B'')]\<rparr>"

text \<open>The traces of the runs from \<^verbatim>\<open>A\<close> on this graph, for the two orders of iteration.\<close>

definition tie_trace :: "string event_py list" where
  "tie_trace =
     [Visit_node_py ''A''
        [(''A'', Py_int 0), (''B'', Py_float Pos_inf), (''C'', Py_float Pos_inf)] [''A''],
      Relax_edge_py ''A'' ''C'' (Py_int 1)
        [(''A'', Py_int 0), (''B'', Py_float Pos_inf), (''C'', Py_int 1)],
      Relax_edge_py ''A'' ''B'' (Py_int 1)
        [(''A'', Py_int 0), (''B'', Py_int 1), (''C'', Py_int 1)],
      Visit_node_py ''B''
        [(''A'', Py_int 0), (''B'', Py_int 1), (''C'', Py_int 1)] [''A'', ''B''],
      Visit_node_py ''C''
        [(''A'', Py_int 0), (''B'', Py_int 1), (''C'', Py_int 1)] [''A'', ''B'', ''C'']]"

definition tie_trace_reversed :: "string event_py list" where
  "tie_trace_reversed =
     [Visit_node_py ''A''
        [(''A'', Py_int 0), (''B'', Py_float Pos_inf), (''C'', Py_float Pos_inf)] [''A''],
      Relax_edge_py ''A'' ''C'' (Py_int 1)
        [(''A'', Py_int 0), (''B'', Py_float Pos_inf), (''C'', Py_int 1)],
      Relax_edge_py ''A'' ''B'' (Py_int 1)
        [(''A'', Py_int 0), (''B'', Py_int 1), (''C'', Py_int 1)],
      Visit_node_py ''B''
        [(''A'', Py_int 0), (''B'', Py_int 1), (''C'', Py_int 1)] [''B'', ''A''],
      Visit_node_py ''C''
        [(''A'', Py_int 0), (''B'', Py_int 1), (''C'', Py_int 1)] [''C'', ''B'', ''A'']]"

text \<open>
  Two graphs with \<^verbatim>\<open>float\<close> weights, none negative. On the first the weights are
  \<open>2\<^sup>1\<^sup>0\<^sup>2\<^sup>3\<close> (\<^verbatim>\<open>2.0 ** 1023\<close>), and their sum is beyond the largest double; on the second
  they are \<open>2\<^sup>5\<^sup>3\<close> and \<open>1\<close> (\<^verbatim>\<open>2.0 ** 53\<close> and \<^verbatim>\<open>1.0\<close>), and their sum \<open>2\<^sup>5\<^sup>3 + 1\<close> is not a
  double.
\<close>

definition overflow_graph :: "string graph_py" where
  "overflow_graph =
     [(''A'', [(''B'', Py_float (Finite_double 1 1023))]),
      (''B'', [(''C'', Py_float (Finite_double 1 1023))]),
      (''C'', [])]"

definition rounding_graph :: "string graph_py" where
  "rounding_graph =
     [(''A'', [(''B'', Py_float (Finite_double 1 53))]),
      (''B'', [(''C'', Py_float (Finite_double 1 0))]),
      (''C'', [])]"

definition overflow_trace :: "string event_py list" where
  "overflow_trace =
     [Visit_node_py ''A''
        [(''A'', Py_int 0), (''B'', Py_float Pos_inf), (''C'', Py_float Pos_inf)] [''A''],
      Relax_edge_py ''A'' ''B'' (Py_float (Finite_double 1 1023))
        [(''A'', Py_int 0), (''B'', Py_float (Finite_double 1 1023)), (''C'', Py_float Pos_inf)],
      Visit_node_py ''B''
        [(''A'', Py_int 0), (''B'', Py_float (Finite_double 1 1023)), (''C'', Py_float Pos_inf)]
        [''A'', ''B'']]"

definition rounding_trace :: "string event_py list" where
  "rounding_trace =
     [Visit_node_py ''A''
        [(''A'', Py_int 0), (''B'', Py_float Pos_inf), (''C'', Py_float Pos_inf)] [''A''],
      Relax_edge_py ''A'' ''B'' (Py_float (Finite_double 1 53))
        [(''A'', Py_int 0), (''B'', Py_float (Finite_double 1 53)), (''C'', Py_float Pos_inf)],
      Visit_node_py ''B''
        [(''A'', Py_int 0), (''B'', Py_float (Finite_double 1 53)), (''C'', Py_float Pos_inf)]
        [''A'', ''B''],
      Relax_edge_py ''B'' ''C'' (Py_float (Finite_double 1 53))
        [(''A'', Py_int 0), (''B'', Py_float (Finite_double 1 53)),
         (''C'', Py_float (Finite_double 1 53))],
      Visit_node_py ''C''
        [(''A'', Py_int 0), (''B'', Py_float (Finite_double 1 53)),
         (''C'', Py_float (Finite_double 1 53))]
        [''A'', ''B'', ''C'']]"

text \<open>
  No pair of the queue is below the entry of its node in the table, and no two pairs of
  the queue are equal for Python (same node, and distances equal for \<^verbatim>\<open>==\<close>).
\<close>

definition queue_distinct :: "'n run_state_py \<Rightarrow> bool" where
  "queue_distinct st \<longleftrightarrow>
     (\<forall>(d, n) \<in> set (priority_queue_py st).
        \<exists>old. map_of (distances_py st) n = Some old \<and> exact old \<noteq> Not_a_number \<and>
          double_key (exact old) \<le> double_key (exact d)) \<and>
     distinct (map pair_key (priority_queue_py st))"

text \<open>
  The first reading inside the second: a graph with integer weights as a graph of
  Python numbers, and what it means for a state, an event or a result of the second
  reading to be that of the first. A list of visited nodes stands for the set of its
  elements.
\<close>

definition number_of :: "dist \<Rightarrow> number" where
  "number_of d = (case d of Finite i \<Rightarrow> Py_int i | Infinity \<Rightarrow> Py_float Pos_inf)"

definition graph_of_int :: "'n graph \<Rightarrow> 'n graph_py" where
  "graph_of_int g = map (\<lambda>(u, nbrs). (u, map (\<lambda>(v, w). (v, Py_int w)) nbrs)) g"

definition table_of_int :: "'n table \<Rightarrow> 'n table_py" where
  "table_of_int t = map (\<lambda>(n, d). (n, number_of d)) t"

definition queue_of_int :: "(int \<times> 'n) list \<Rightarrow> (number \<times> 'n) list" where
  "queue_of_int q = map (\<lambda>(d, n). (Py_int d, n)) q"

fun same_event :: "'n event_py \<Rightarrow> 'n event \<Rightarrow> bool" where
  "same_event (Visit_node_py n' snap' l) (Visit_node n snap V) =
     (n' = n \<and> snap' = table_of_int snap \<and> set l = V)"
| "same_event (Relax_edge_py f' t' nd' snap') (Relax_edge f t nd snap) =
     (f' = f \<and> t' = t \<and> nd' = Py_int nd \<and> snap' = table_of_int snap)"
| "same_event (Visit_node_py n' snap' l) (Relax_edge f t nd snap) = False"
| "same_event (Relax_edge_py f' t' nd' snap') (Visit_node n snap V) = False"

fun same_error :: "'n error_py \<Rightarrow> 'n error \<Rightarrow> bool" where
  "same_error (KeyError_py n') (KeyError n) = (n' = n)"
| "same_error OverflowError_py err = False"

definition same_engine :: "'n engine_py \<Rightarrow> 'n engine \<Rightarrow> bool" where
  "same_engine e' e \<longleftrightarrow>
     graph_py e' = graph_of_int (graph e) \<and> list_all2 same_event (steps_py e') (steps e)"

definition same_state :: "'n run_state_py \<Rightarrow> 'n run_state \<Rightarrow> bool" where
  "same_state st' st \<longleftrightarrow>
     graph_py st' = graph_of_int (graph st) \<and>
     list_all2 same_event (steps_py st') (steps st) \<and>
     distances_py st' = table_of_int (distances st) \<and>
     set (visited_py st') = visited st \<and>
     priority_queue_py st' = queue_of_int (priority_queue st)"

fun same_pass ::
  "('n error_py \<times> 'n engine_py) + 'n run_state_py \<Rightarrow> ('n error \<times> 'n engine) + 'n run_state \<Rightarrow> bool"
where
  "same_pass (Inl (err', e')) (Inl (err, e)) = (same_error err' err \<and> same_engine e' e)"
| "same_pass (Inr st') (Inr st) = same_state st' st"
| "same_pass (Inl x) (Inr st) = False"
| "same_pass (Inr st') (Inl x) = False"

fun same_result ::
  "('n error_py + 'n table_py \<times> 'n event_py list) \<times> 'n engine_py \<Rightarrow>
   ('n error + 'n table \<times> 'n event list) \<times> 'n engine \<Rightarrow> bool"
where
  "same_result (Inl err', e') (Inl err, e) = (same_error err' err \<and> same_engine e' e)"
| "same_result (Inr (d', tr'), e') (Inr (d, tr), e) =
     (d' = table_of_int d \<and> list_all2 same_event tr' tr \<and> same_engine e' e)"
| "same_result (Inl err', e') (Inr x, e) = False"
| "same_result (Inr x', e') (Inl err, e) = False"

section \<open>Basic facts\<close>

lemma min_list_in: "q \<noteq> [] \<Longrightarrow> min_list q \<in> set (q :: ('a::linorder) list)"
  by (simp add: min_list_Min)

lemma min_list_le: "x \<in> set q \<Longrightarrow> min_list q \<le> (x :: 'a::linorder)"
  by (cases "q = []") (auto simp: min_list_Min)

lemma update_new_key: "k \<notin> keys al \<Longrightarrow> AList.update k v al = al @ [(k, v)]"
  by (induction al) (auto simp: keys_def)

lemma map_of_None_keys: "map_of al k = None \<longleftrightarrow> k \<notin> keys al"
  by (simp add: keys_def map_of_eq_None_iff)

lemma keys_initial_table: "keys (map (\<lambda>(node, _). (node, Infinity)) g) = keys g"
  by (induction g) (auto simp: keys_def)

lemma relax_edge_frame:
  "relax_edge cn cd item st = Inr st' \<Longrightarrow>
     graph st' = graph st \<and> visited st' = visited st \<and>
     length (priority_queue st') \<le> Suc (length (priority_queue st))"
  by (auto simp: relax_edge_def Let_def heappush_def split: prod.splits if_splits option.splits)

lemma relax_edges_frame:
  "relax_edges cn cd nbrs st = Inr st' \<Longrightarrow>
     graph st' = graph st \<and> visited st' = visited st \<and>
     length (priority_queue st') \<le> length (priority_queue st) + length nbrs"
proof (induction nbrs arbitrary: st)
  case Nil
  then show ?case by simp
next
  case (Cons item rest)
  from Cons.prems obtain st1 where
    1: "relax_edge cn cd item st = Inr st1" and 2: "relax_edges cn cd rest st1 = Inr st'"
    by (auto split: sum.splits)
  from relax_edge_frame [OF 1] Cons.IH [OF 2] show ?case by simp
qed

section \<open>Termination of the loop\<close>

lemma unvisited_work_mono: "unvisited_work (insert u V) g \<le> unvisited_work V g"
  by (induction g) (auto simp: unvisited_work_def)

lemma unvisited_work_insert:
  "(u, nbrs) \<in> set g \<Longrightarrow> u \<notin> V \<Longrightarrow>
     unvisited_work (insert u V) g + Suc (length nbrs) \<le> unvisited_work V g"
proof (induction g)
  case Nil
  then show ?case by simp
next
  case (Cons p g)
  show ?case
  proof (cases "p = (u, nbrs)")
    case True
    have "unvisited_work (insert u V) g \<le> unvisited_work V g"
      by (rule unvisited_work_mono)
    with True Cons.prems show ?thesis
      by (simp add: unvisited_work_def)
  next
    case False
    with Cons have "unvisited_work (insert u V) g + Suc (length nbrs) \<le> unvisited_work V g"
      by simp
    then show ?thesis
      by (cases p) (auto simp: unvisited_work_def)
  qed
qed

lemma iteration_pending:
  assumes "priority_queue st \<noteq> []" and "iteration st = Inr st'"
  shows "pending st' < pending st"
proof -
  obtain cd cn where m: "min_list (priority_queue st) = (cd, cn)"
    by (cases "min_list (priority_queue st)")
  have mem: "(cd, cn) \<in> set (priority_queue st)"
    using min_list_in [OF assms(1)] m by simp
  let ?q = "remove1 (cd, cn) (priority_queue st)"
  have len: "Suc (length ?q) = length (priority_queue st)"
    using mem assms(1) by (simp add: length_remove1 Suc_pred)
  show ?thesis
  proof (cases "cn \<in> visited st")
    case True
    with assms(2) m have "st' = st\<lparr>priority_queue := ?q\<rparr>"
      by (simp add: iteration_def heappop_def)
    with len show ?thesis by (simp add: pending_def)
  next
    case False
    let ?st1 = "st\<lparr>priority_queue := ?q, visited := insert cn (visited st),
        steps := steps st @ [Visit_node cn (distances st) (insert cn (visited st))]\<rparr>"
    from assms(2) m False obtain nbrs where
      g: "map_of (graph st) cn = Some nbrs" and r: "relax_edges cn cd nbrs ?st1 = Inr st'"
      by (auto simp: iteration_def heappop_def Let_def split: option.splits)
    from relax_edges_frame [OF r] have
      f: "graph st' = graph st" "visited st' = insert cn (visited st)"
         "length (priority_queue st') \<le> length ?q + length nbrs"
      by simp_all
    from g have "(cn, nbrs) \<in> set (graph st)" by (rule map_of_SomeD)
    from unvisited_work_insert [OF this False]
    have "unvisited_work (insert cn (visited st)) (graph st) + Suc (length nbrs)
            \<le> unvisited_work (visited st) (graph st)" .
    with f len show ?thesis by (simp add: pending_def)
  qed
qed

lemma main_loop_returns: "\<exists>r. main_loop st = Some r"
proof (induction "pending st" arbitrary: st rule: less_induct)
  case less
  show ?case
  proof (cases "priority_queue st = []")
    case True
    then show ?thesis by (subst main_loop.simps) simp
  next
    case False
    show ?thesis
    proof (cases "iteration st")
      case (Inl err)
      with False show ?thesis by (subst main_loop.simps) simp
    next
      case (Inr st')
      from less [OF iteration_pending [OF False Inr]]
      obtain r where "main_loop st' = Some r" ..
      with False Inr show ?thesis by (subst main_loop.simps) simp
    qed
  qed
qed

lemma run_total: "\<exists>r. run e s = Some r"
proof -
  obtain r where "main_loop (init_state e s) = Some r"
    using main_loop_returns by blast
  then show ?thesis
    by (cases r) (auto simp: run_def split: prod.splits)
qed

section \<open>A start node that is not in the graph\<close>

text \<open>
  C5 as stated fails: with a start node that is not a key of the graph, the object's
  trace has received a \<^verbatim>\<open>visit_node\<close> event by the time the exception is raised.
\<close>

theorem unknown_start_counterexample:
  "run (init_engine example_graph) ''Z'' =
     Some (Inl (KeyError ''Z''),
           \<lparr>graph = example_graph,
            steps = [Visit_node ''Z''
                       [(''A'', Infinity), (''B'', Infinity), (''C'', Infinity),
                        (''D'', Infinity), (''Z'', Finite 0)]
                       {''Z''}]\<rparr>)
   \<and> steps (init_engine example_graph) = []"
  by code_simp

text \<open>
  C5, amended. With a start node that is not a key of the graph, \<^verbatim>\<open>run\<close> raises
  \<^verbatim>\<open>KeyError(start_node)\<close> in the first pass of the loop, at \<^verbatim>\<open>self.graph[current_node]\<close>.
  By then the start node has been given distance 0 in a table that lists it after the
  nodes of the graph, it has been marked visited, and one \<^verbatim>\<open>visit_node\<close> event for it
  has been appended to the object's trace; nothing else of the object changes and no
  distance table is returned.
\<close>

theorem unknown_start_raises_in_loop:
  assumes "start_node \<notin> keys (graph e)"
  shows "run e start_node =
     Some (Inl (KeyError start_node),
           \<lparr>graph = graph e,
            steps = steps e @
              [Visit_node start_node
                 (map (\<lambda>(node, _). (node, Infinity)) (graph e) @ [(start_node, Finite 0)])
                 {start_node}]\<rparr>)"
proof -
  have k: "start_node \<notin> keys (map (\<lambda>(node, _). (node, Infinity)) (graph e))"
    using assms by (simp add: keys_initial_table)
  have n: "map_of (graph e) start_node = None"
    using assms by (simp add: map_of_None_keys)
  have "iteration (init_state e start_node) =
     Inl (KeyError start_node,
          \<lparr>graph = graph e,
           steps = steps e @
             [Visit_node start_node
                (map (\<lambda>(node, _). (node, Infinity)) (graph e) @ [(start_node, Finite 0)])
                {start_node}]\<rparr>)"
    by (simp add: iteration_def init_state_def heappop_def Let_def n engine_of_def
        update_new_key [OF k])
  then show ?thesis
    by (simp add: run_def main_loop.simps init_state_def)
qed

text \<open>On the example graph, started at \<^verbatim>\<open>Z\<close>.\<close>

theorem unknown_start_raises_in_loop_witness:
  "''Z'' \<notin> keys (graph (init_engine example_graph)) \<and>
   run (init_engine example_graph) ''Z'' =
     Some (Inl (KeyError ''Z''),
           \<lparr>graph = example_graph,
            steps = [Visit_node ''Z''
                       [(''A'', Infinity), (''B'', Infinity), (''C'', Infinity),
                        (''D'', Infinity), (''Z'', Finite 0)]
                       {''Z''}]\<rparr>)"
proof -
  have h: "''Z'' \<notin> keys (graph (init_engine example_graph))"
    by (simp add: keys_def init_engine_def example_graph_def)
  show ?thesis
    using h unknown_start_raises_in_loop [OF h]
    by (simp add: init_engine_def example_graph_def)
qed

section \<open>A trace held before the call\<close>


lemma with_history_simps:
  "with_history pre (Inl (err, e)) = Inl (err, e\<lparr>steps := pre @ steps e\<rparr>)"
  "with_history pre (Inr st) = Inr (st\<lparr>steps := pre @ steps st\<rparr>)"
  by (simp_all add: with_history_def)

lemma relax_edge_history:
  "relax_edge cn cd item (st\<lparr>steps := pre @ steps st\<rparr>) = with_history pre (relax_edge cn cd item st)"
  by (simp add: relax_edge_def with_history_def Let_def engine_of_def split: prod.splits option.splits)

lemma relax_edges_history:
  "relax_edges cn cd nbrs (st\<lparr>steps := pre @ steps st\<rparr>) = with_history pre (relax_edges cn cd nbrs st)"
proof (induction nbrs arbitrary: st)
  case Nil
  show ?case by (simp add: with_history_simps)
next
  case (Cons item rest)
  show ?case
  proof (cases "relax_edge cn cd item st")
    case (Inl err)
    then show ?thesis by (cases err) (simp add: relax_edge_history with_history_simps)
  next
    case (Inr st1)
    then show ?thesis by (simp add: relax_edge_history with_history_simps Cons.IH)
  qed
qed

lemma iteration_history:
  "iteration (st\<lparr>steps := pre @ steps st\<rparr>) = with_history pre (iteration st)"
proof -
  obtain cd cn where m: "min_list (priority_queue st) = (cd, cn)"
    by (cases "min_list (priority_queue st)")
  show ?thesis
  proof (cases "cn \<in> visited st")
    case True
    with m show ?thesis by (simp add: iteration_def heappop_def with_history_simps)
  next
    case False
    let ?st1 = "st\<lparr>priority_queue := remove1 (cd, cn) (priority_queue st),
        visited := insert cn (visited st),
        steps := steps st @ [Visit_node cn (distances st) (insert cn (visited st))]\<rparr>"
    have "?st1\<lparr>steps := pre @ steps ?st1\<rparr> =
       st\<lparr>priority_queue := remove1 (cd, cn) (priority_queue st),
        visited := insert cn (visited st),
        steps := pre @ steps st @ [Visit_node cn (distances st) (insert cn (visited st))]\<rparr>"
      by simp
    with relax_edges_history [of cn cd _ pre ?st1] m False show ?thesis
      by (simp add: iteration_def heappop_def Let_def engine_of_def with_history_simps
          split: option.splits)
  qed
qed

lemma main_loop_history:
  "main_loop (st\<lparr>steps := pre @ steps st\<rparr>) = map_option (with_history pre) (main_loop st)"
proof (induction "pending st" arbitrary: st rule: less_induct)
  case less
  let ?st = "st\<lparr>steps := pre @ steps st\<rparr>"
  note l = main_loop.simps [of ?st] and r = main_loop.simps [of st]
  show ?case
  proof (cases "priority_queue st = []")
    case True
    then have "main_loop ?st = Some (Inr ?st)" and "main_loop st = Some (Inr st)"
      using l r by simp_all
    then show ?thesis by (simp add: with_history_simps)
  next
    case False
    show ?thesis
    proof (cases "iteration st")
      case (Inl err)
      with False have "main_loop ?st = Some (with_history pre (Inl err))"
        and "main_loop st = Some (Inl err)"
        using l r by (simp_all add: iteration_history, cases err, simp add: with_history_simps)
      then show ?thesis by simp
    next
      case (Inr st')
      have "main_loop (st'\<lparr>steps := pre @ steps st'\<rparr>) = map_option (with_history pre) (main_loop st')"
        by (rule less [OF iteration_pending [OF False Inr]])
      moreover from False Inr have "main_loop ?st = main_loop (st'\<lparr>steps := pre @ steps st'\<rparr>)"
        and "main_loop st = main_loop st'"
        using l r by (simp_all add: iteration_history with_history_simps)
      ultimately show ?thesis by simp
    qed
  qed
qed

lemma run_history:
  "run e start_node =
     (case run (e\<lparr>steps := []\<rparr>) start_node of
        None \<Rightarrow> None
      | Some (Inl err, e') \<Rightarrow> Some (Inl err, e'\<lparr>steps := steps e @ steps e'\<rparr>)
      | Some (Inr (d, new), e') \<Rightarrow>
          Some (Inr (d, steps e @ new), e'\<lparr>steps := steps e @ steps e'\<rparr>))"
proof -
  let ?st = "init_state (e\<lparr>steps := []\<rparr>) start_node"
  have "init_state e start_node = ?st\<lparr>steps := steps e @ steps ?st\<rparr>"
    by (simp add: init_state_def)
  then have "main_loop (init_state e start_node) = map_option (with_history (steps e)) (main_loop ?st)"
    by (simp only: main_loop_history)
  then show ?thesis
    by (simp add: run_def with_history_def engine_of_def split: option.splits sum.splits prod.splits)
qed

section \<open>The loop in small steps\<close>


lemma main_loop_reach_aux:
  "main_loop st = Some r \<Longrightarrow> loop_reach st0 st \<Longrightarrow>
     (case r of
        Inr st' \<Rightarrow> loop_reach st0 st' \<and> priority_queue st' = []
      | Inl err \<Rightarrow> \<exists>s. loop_reach st0 s \<and> priority_queue s \<noteq> [] \<and> iteration s = Inl err)"
proof (induction "pending st" arbitrary: st rule: less_induct)
  case less
  note unf = main_loop.simps [of st]
  show ?case
  proof (cases "priority_queue st = []")
    case True
    with less.prems unf show ?thesis by auto
  next
    case False
    show ?thesis
    proof (cases "iteration st")
      case (Inl err)
      with False less.prems unf show ?thesis by auto
    next
      case (Inr st')
      with False less.prems(1) unf have "main_loop st' = Some r" by simp
      moreover have "loop_reach st0 st'"
        using less.prems(2) False Inr by (rule loop_pass)
      ultimately show ?thesis
        by (rule less.hyps [OF iteration_pending [OF False Inr]])
    qed
  qed
qed

lemma main_loop_returned:
  "main_loop st0 = Some (Inr st') \<Longrightarrow> loop_reach st0 st' \<and> priority_queue st' = []"
  using main_loop_reach_aux [of st0 "Inr st'" st0] by (simp add: loop_start)

lemma main_loop_raised:
  "main_loop st0 = Some (Inl err) \<Longrightarrow>
     \<exists>s. loop_reach st0 s \<and> priority_queue s \<noteq> [] \<and> iteration s = Inl err"
  using main_loop_reach_aux [of st0 "Inl err" st0] by (simp add: loop_start)



lemma relax_edge_Inl:
  "relax_edge cn cd (nb, w) st = Inl (err, e') \<longleftrightarrow>
     nb \<notin> visited st \<and> map_of (distances st) nb = None \<and> err = KeyError nb \<and> e' = engine_of st"
  by (auto simp: relax_edge_def Let_def split: option.splits)

lemma relax_edges_reach:
  "reach e s st (Relaxing cn cd done rest) \<Longrightarrow>
     (case relax_edges cn cd rest st of
        Inr st' \<Rightarrow> reach e s st' Loop_head
      | Inl (err, e') \<Rightarrow> stuck e s err e')"
proof (induction rest arbitrary: st "done")
  case Nil
  then show ?case by (simp add: reach_done)
next
  case (Cons item rest)
  obtain nb w where item: "item = (nb, w)" by (cases item)
  show ?case
  proof (cases "relax_edge cn cd item st")
    case (Inl x)
    obtain err e' where x: "x = (err, e')" by (cases x)
    from Inl Cons.prems have "stuck e s err e'"
      unfolding stuck_def x item relax_edge_Inl by blast
    with Inl x show ?thesis by simp
  next
    case (Inr st1)
    from reach_relax [OF Cons.prems Inr] Cons.IH Inr show ?thesis by simp
  qed
qed

lemma iteration_reach:
  assumes "reach e s st Loop_head" and "priority_queue st \<noteq> []"
  shows "case iteration st of
           Inr st' \<Rightarrow> reach e s st' Loop_head
         | Inl (err, e') \<Rightarrow> stuck e s err e'"
proof -
  obtain cd cn q where pop: "heappop (priority_queue st) = ((cd, cn), q)"
    by (metis prod.collapse)
  show ?thesis
  proof (cases "cn \<in> visited st")
    case True
    from reach_stale [OF assms pop True] pop True show ?thesis
      by (simp add: iteration_def)
  next
    case False
    let ?st1 = "st\<lparr>priority_queue := q, visited := insert cn (visited st),
        steps := steps st @ [Visit_node cn (distances st) (insert cn (visited st))]\<rparr>"
    have v: "reach e s ?st1 (Visiting cn cd)"
      by (rule reach_visit [OF assms pop False])
    show ?thesis
    proof (cases "map_of (graph st) cn")
      case None
      with v have "stuck e s (KeyError cn) (engine_of ?st1)"
        unfolding stuck_def by (intro disjI1 exI [of _ ?st1] exI [of _ cn] exI [of _ cd]) simp
      with pop False None show ?thesis
        by (simp add: iteration_def Let_def)
    next
      case (Some nbrs)
      then have "reach e s ?st1 (Relaxing cn cd [] nbrs)"
        by (intro reach_lookup [OF v]) simp
      from relax_edges_reach [OF this] pop False Some show ?thesis
        by (simp add: iteration_def Let_def)
    qed
  qed
qed

lemma loop_reach_reach:
  "loop_reach (init_state e s) st \<Longrightarrow> reach e s st Loop_head"
proof (induction rule: loop_reach.induct)
  case loop_start
  show ?case by (rule reach_init)
next
  case (loop_pass st st')
  from iteration_reach [OF loop_pass.IH loop_pass.hyps(2)] loop_pass.hyps(3)
  show ?case by simp
qed

lemma run_returned:
  assumes "run e s = Some (Inr (d, tr), e')"
  shows "\<exists>st. reach e s st Loop_head \<and> priority_queue st = [] \<and>
           d = distances st \<and> tr = steps st \<and> e' = engine_of st"
proof -
  from assms obtain st where m: "main_loop (init_state e s) = Some (Inr st)"
    and r: "d = distances st" "tr = steps st" "e' = engine_of st"
    by (auto simp: run_def split: option.splits sum.splits prod.splits)
  from main_loop_returned [OF m] loop_reach_reach r show ?thesis by blast
qed

lemma run_raised:
  assumes "run e s = Some (Inl err, e')"
  shows "stuck e s err e'"
proof -
  from assms have m: "main_loop (init_state e s) = Some (Inl (err, e'))"
    by (auto simp: run_def split: option.splits sum.splits prod.splits)
  from main_loop_raised [OF m] obtain st where
    st: "loop_reach (init_state e s) st" "priority_queue st \<noteq> []" "iteration st = Inl (err, e')"
    by blast
  from iteration_reach [OF loop_reach_reach [OF st(1)] st(2)] st(3) show ?thesis by simp
qed

section \<open>Queue and table\<close>


lemma heappop_facts:
  assumes "q \<noteq> []" and "heappop q = (m, q')"
  shows "m \<in> set q" and "q' = remove1 m q" and "\<And>x. x \<in> set q \<Longrightarrow> m \<le> x"
    and "\<And>x. x \<in> set q \<Longrightarrow> x \<noteq> m \<Longrightarrow> x \<in> set q'" and "set q' \<subseteq> set q"
  using assms set_remove1_subset [of "min_list q" q]
  by (auto simp: heappop_def min_list_in min_list_le)

lemma relax_edge_cases [consumes 1, case_names visited keep improve]:
  assumes "relax_edge cn cd (nb, w) st = Inr st'"
  obtains
    "nb \<in> visited st" "st' = st"
  | old where "nb \<notin> visited st" "map_of (distances st) nb = Some old"
      "\<not> Finite (cd + w) < old" "st' = st"
  | old where "nb \<notin> visited st" "map_of (distances st) nb = Some old"
      "Finite (cd + w) < old"
      "st' = st\<lparr>distances := AList.update nb (Finite (cd + w)) (distances st),
                 priority_queue := priority_queue st @ [(cd + w, nb)],
                 steps := steps st @ [Relax_edge cn nb (cd + w)
                   (AList.update nb (Finite (cd + w)) (distances st))]\<rparr>"
  using assms
  by (auto simp: relax_edge_def Let_def heappush_def split: if_splits option.splits)

lemma keys_update: "keys (AList.update k v al) = insert k (keys al)"
  by (simp add: keys_def dom_update)

lemma map_of_Some_keys: "map_of al k = Some v \<Longrightarrow> k \<in> keys al"
  by (auto simp: keys_def dest: map_of_SomeD intro: rev_image_eqI)

lemma reach_graph: "reach e s st ph \<Longrightarrow> graph st = graph e"
proof (induction rule: reach.induct)
  case (reach_relax st cn cd "done" item rest st')
  then show ?case using relax_edge_frame by metis
qed (simp_all add: init_state_def)

lemma reach_keys: "reach e s st ph \<Longrightarrow> keys (distances st) = insert s (keys (graph e))"
proof (induction rule: reach.induct)
  case reach_init
  show ?case by (simp add: init_state_def keys_update keys_initial_table)
next
  case (reach_relax st cn cd "done" item rest st')
  obtain nb w where item: "item = (nb, w)" by (cases item)
  from reach_relax.hyps(2) [unfolded item] reach_relax.IH show ?case
    by (cases rule: relax_edge_cases) (auto simp: keys_update dest: map_of_Some_keys)
qed simp_all

lemma reach_queue_sound: "reach e s st ph \<Longrightarrow> queue_sound st"
proof (induction rule: reach.induct)
  case reach_init
  show ?case by (simp add: queue_sound_def init_state_def update_conv')
next
  case (reach_stale st cd cn q)
  from heappop_facts(5) [OF reach_stale.hyps(2,3)] reach_stale.IH show ?case
    by (auto simp: queue_sound_def)
next
  case (reach_visit st cd cn q)
  from heappop_facts(5) [OF reach_visit.hyps(2,3)] reach_visit.IH show ?case
    by (auto simp: queue_sound_def)
next
  case (reach_relax st cn cd "done" item rest st')
  obtain nb w where item: "item = (nb, w)" by (cases item)
  from reach_relax.hyps(2) [unfolded item] show ?case
  proof (cases rule: relax_edge_cases)
    case (improve old)
    show ?thesis unfolding queue_sound_def
    proof (clarify)
      fix x v assume xv: "(x, v) \<in> set (priority_queue st')"
      show "\<exists>y. map_of (distances st') v = Some (Finite y) \<and> y \<le> x"
      proof (cases "v = nb")
        case True
        show ?thesis
        proof (cases "(x, v) \<in> set (priority_queue st)")
          case True
          with reach_relax.IH obtain y where y: "map_of (distances st) v = Some (Finite y)" "y \<le> x"
            by (auto simp: queue_sound_def)
          with improve \<open>v = nb\<close> have "cd + w < y" by simp
          with y improve \<open>v = nb\<close> show ?thesis by (simp add: update_conv')
        next
          case False
          with xv improve have "x = cd + w" by simp
          with improve \<open>v = nb\<close> show ?thesis by (simp add: update_conv')
        qed
      next
        case False
        with xv improve have "(x, v) \<in> set (priority_queue st)" by simp
        with reach_relax.IH obtain y where "map_of (distances st) v = Some (Finite y)" "y \<le> x"
          by (auto simp: queue_sound_def)
        with improve False show ?thesis by (simp add: update_conv')
      qed
    qed
  qed (use reach_relax.IH in simp_all)
qed simp_all

lemma reach_queue_complete: "reach e s st ph \<Longrightarrow> queue_complete st"
proof (induction rule: reach.induct)
  case reach_init
  show ?case by (auto simp: queue_complete_def init_state_def update_conv' map_of_map split: if_splits option.splits)
next
  case (reach_stale st cd cn q)
  show ?case unfolding queue_complete_def
  proof (intro allI impI)
    fix v y assume a: "v \<notin> visited (st\<lparr>priority_queue := q\<rparr>)"
      "map_of (distances (st\<lparr>priority_queue := q\<rparr>)) v = Some (Finite y)"
    with reach_stale.IH have "(y, v) \<in> set (priority_queue st)"
      by (simp add: queue_complete_def)
    moreover from a reach_stale.hyps(4) have "(y, v) \<noteq> (cd, cn)" by auto
    ultimately show "(y, v) \<in> set (priority_queue (st\<lparr>priority_queue := q\<rparr>))"
      using heappop_facts(4) [OF reach_stale.hyps(2,3)] by simp
  qed
next
  case (reach_visit st cd cn q)
  show ?case unfolding queue_complete_def
  proof (intro allI impI)
    fix v y
    let ?st' = "st\<lparr>priority_queue := q, visited := insert cn (visited st),
           steps := steps st @ [Visit_node cn (distances st) (insert cn (visited st))]\<rparr>"
    assume a: "v \<notin> visited ?st'" "map_of (distances ?st') v = Some (Finite y)"
    with reach_visit.IH have "(y, v) \<in> set (priority_queue st)"
      by (simp add: queue_complete_def)
    moreover from a have "(y, v) \<noteq> (cd, cn)" by auto
    ultimately show "(y, v) \<in> set (priority_queue ?st')"
      using heappop_facts(4) [OF reach_visit.hyps(2,3)] by simp
  qed
next
  case (reach_relax st cn cd "done" item rest st')
  obtain nb w where item: "item = (nb, w)" by (cases item)
  from reach_relax.hyps(2) [unfolded item] show ?case
  proof (cases rule: relax_edge_cases)
    case (improve old)
    with reach_relax.IH show ?thesis
      by (auto simp: queue_complete_def update_conv')
  qed (use reach_relax.IH in simp_all)
qed simp_all

lemma reach_visited_finite: "reach e s st ph \<Longrightarrow> visited_finite st"
proof (induction rule: reach.induct)
  case reach_init
  show ?case by (simp add: visited_finite_def init_state_def)
next
  case (reach_stale st cd cn q)
  then show ?case by (simp add: visited_finite_def)
next
  case (reach_visit st cd cn q)
  from heappop_facts(1) [OF reach_visit.hyps(2,3)] reach_queue_sound [OF reach_visit.hyps(1)]
  have "\<exists>y. map_of (distances st) cn = Some (Finite y)"
    by (auto simp: queue_sound_def)
  with reach_visit.IH show ?case by (simp add: visited_finite_def)
next
  case (reach_relax st cn cd "done" item rest st')
  obtain nb w where item: "item = (nb, w)" by (cases item)
  from reach_relax.hyps(2) [unfolded item] show ?case
  proof (cases rule: relax_edge_cases)
    case (improve old)
    with reach_relax.IH show ?thesis
      by (auto simp: visited_finite_def update_conv')
  qed (use reach_relax.IH in simp_all)
qed simp_all

lemma popped_is_table_entry:
  assumes "reach e s st ph" and "priority_queue st \<noteq> []"
    and "heappop (priority_queue st) = ((cd, cn), q)" and "cn \<notin> visited st"
  shows "map_of (distances st) cn = Some (Finite cd)"
proof -
  note h = heappop_facts [OF assms(2,3)]
  from h(1) reach_queue_sound [OF assms(1)] obtain y where
    y: "map_of (distances st) cn = Some (Finite y)" "y \<le> cd"
    by (auto simp: queue_sound_def)
  with reach_queue_complete [OF assms(1)] assms(4) have "(y, cn) \<in> set (priority_queue st)"
    by (simp add: queue_complete_def)
  from h(3) [OF this] have "cd \<le> y" by (auto simp: less_eq_prod_def)
  with y show ?thesis by simp
qed

lemma reach_phase_inv: "reach e s st ph \<Longrightarrow> phase_inv e st ph"
proof (induction rule: reach.induct)
  case (reach_visit st cd cn q)
  from popped_is_table_entry [OF reach_visit.hyps(1,2,3,4)] show ?case
    by (simp add: phase_inv_def)
next
  case (reach_lookup st cn cd nbrs)
  with reach_graph [OF reach_lookup.hyps(1)] show ?case by (simp add: phase_inv_def)
next
  case (reach_relax st cn cd "done" item rest st')
  obtain nb w where item: "item = (nb, w)" by (cases item)
  from reach_relax.hyps(2) [unfolded item] show ?case
  proof (cases rule: relax_edge_cases)
    case (improve old)
    with reach_relax.IH show ?thesis
      by (auto simp: phase_inv_def update_conv')
  qed (use reach_relax.IH in \<open>simp_all add: phase_inv_def\<close>)
qed (simp_all add: phase_inv_def)

lemma reach_start_le: "reach e s st ph \<Longrightarrow> start_le s st"
proof (induction rule: reach.induct)
  case reach_init
  show ?case by (simp add: start_le_def init_state_def update_conv')
next
  case (reach_relax st cn cd "done" item rest st')
  obtain nb w where item: "item = (nb, w)" by (cases item)
  from reach_relax.hyps(2) [unfolded item] show ?case
  proof (cases rule: relax_edge_cases)
    case (improve old)
    with reach_relax.IH show ?thesis
      by (auto simp: start_le_def update_conv')
  qed (use reach_relax.IH in simp_all)
qed (simp_all add: start_le_def)

lemma finite_entry_visited:
  assumes "reach e s st ph" and "priority_queue st = []"
    and "map_of (distances st) v = Some (Finite y)"
  shows "v \<in> visited st"
  using reach_queue_complete [OF assms(1)] assms(2,3) by (auto simp: queue_complete_def)

section \<open>Runs that return\<close>

lemma run_returned_loop:
  assumes "run e s = Some (Inr (d, tr), e')"
  shows "\<exists>st. loop_reach (init_state e s) st \<and> priority_queue st = [] \<and>
           d = distances st \<and> tr = steps st \<and> e' = engine_of st"
proof -
  from assms obtain st where m: "main_loop (init_state e s) = Some (Inr st)"
    and r: "d = distances st" "tr = steps st" "e' = engine_of st"
    by (auto simp: run_def split: option.splits sum.splits prod.splits)
  from main_loop_returned [OF m] r show ?thesis by blast
qed

lemma not_stuck:
  assumes wf: "wf_graph (graph e)" and s: "s \<in> keys (graph e)"
  shows "\<not> stuck e s err e'"
proof
  assume "stuck e s err e'"
  then consider
    (lookup) st cn cd where "reach e s st (Visiting cn cd)" "map_of (graph st) cn = None"
  | (relax) st cn cd "done" nb w rest where
      "reach e s st (Relaxing cn cd done ((nb, w) # rest))" "map_of (distances st) nb = None"
    unfolding stuck_def by blast
  then show False
  proof cases
    case lookup
    from reach_phase_inv [OF lookup(1)] have "cn \<in> keys (distances st)"
      by (auto simp: phase_inv_def dest: map_of_Some_keys)
    with reach_keys [OF lookup(1)] s have "cn \<in> keys (graph e)" by auto
    with lookup(2) reach_graph [OF lookup(1)] show False
      by (simp add: map_of_None_keys)
  next
    case relax
    from reach_phase_inv [OF relax(1)] have "map_of (graph e) cn = Some (done @ (nb, w) # rest)"
      by (simp add: phase_inv_def)
    then have "(cn, done @ (nb, w) # rest) \<in> set (graph e)" by (rule map_of_SomeD)
    with wf have "nb \<in> keys (graph e)" by (fastforce simp: wf_graph_def)
    with reach_keys [OF relax(1)] have "nb \<in> keys (distances st)" by simp
    with relax(2) show False by (simp add: map_of_None_keys)
  qed
qed

lemma run_succeeds:
  assumes "wf_graph (graph e)" and "s \<in> keys (graph e)"
  shows "\<exists>st. run e s = Some (Inr (distances st, steps st), engine_of st) \<and>
           loop_reach (init_state e s) st \<and> reach e s st Loop_head \<and> priority_queue st = []"
proof -
  obtain r e' where r: "run e s = Some (r, e')"
    using run_total [of e s] by auto
  show ?thesis
  proof (cases r)
    case (Inl err)
    with r have "stuck e s err e'" by (simp add: run_raised)
    with not_stuck [OF assms] show ?thesis by blast
  next
    case (Inr p)
    obtain d tr where "p = (d, tr)" by (cases p)
    with r Inr run_returned_loop [of e s d tr e'] loop_reach_reach [of e s] show ?thesis
      by auto
  qed
qed



section \<open>The popped distance and the table\<close>

lemma relax_edges_reach_prefix:
  "reach e s st (Relaxing cn cd pre (mid @ rest)) \<Longrightarrow> relax_edges cn cd mid st = Inr st' \<Longrightarrow>
     reach e s st' (Relaxing cn cd (pre @ mid) rest)"
proof (induction mid arbitrary: st pre)
  case Nil
  then show ?case by simp
next
  case (Cons item mid)
  from Cons.prems(2) obtain st1 where
    1: "relax_edge cn cd item st = Inr st1" and 2: "relax_edges cn cd mid st1 = Inr st'"
    by (auto split: sum.splits)
  from Cons.prems(1) have "reach e s st (Relaxing cn cd pre (item # mid @ rest))" by simp
  from reach_relax [OF this 1] have "reach e s st1 (Relaxing cn cd (pre @ [item]) (mid @ rest))" .
  from Cons.IH [OF this 2] show ?case by simp
qed

text \<open>
  C10. In every state in which a run tests the \<^verbatim>\<open>while\<close> condition, if the pair popped
  from the queue names a node that is not visited yet, the popped distance is that
  node's entry in \<^verbatim>\<open>distances\<close>. The entry stays so while the edges of the node are
  relaxed (after any number \<open>done\<close> of its items), so \<^verbatim>\<open>current_distance + weight\<close> is
  \<^verbatim>\<open>distances[current_node] + weight\<close> for every candidate. This holds on every graph,
  well-formed or not.
\<close>

theorem popped_distance_is_table_entry:
  assumes "loop_reach (init_state e start_node) st"
    and "priority_queue st \<noteq> []"
    and "heappop (priority_queue st) = ((current_distance, current_node), q)"
    and "current_node \<notin> visited st"
  shows "map_of (distances st) current_node = Some (Finite current_distance) \<and>
    (\<forall>done rest st'.
       map_of (graph st) current_node = Some (done @ rest) \<longrightarrow>
       relax_edges current_node current_distance done
         (st\<lparr>priority_queue := q, visited := insert current_node (visited st),
             steps := steps st @
               [Visit_node current_node (distances st) (insert current_node (visited st))]\<rparr>)
         = Inr st' \<longrightarrow>
       map_of (distances st') current_node = Some (Finite current_distance))"
proof (intro conjI allI impI)
  have r: "reach e start_node st Loop_head"
    using assms(1) by (rule loop_reach_reach)
  from popped_is_table_entry [OF r assms(2,3,4)]
  show "map_of (distances st) current_node = Some (Finite current_distance)" .
  fix done' rest st'
  let ?st1 = "st\<lparr>priority_queue := q, visited := insert current_node (visited st),
             steps := steps st @
               [Visit_node current_node (distances st) (insert current_node (visited st))]\<rparr>"
  assume g: "map_of (graph st) current_node = Some (done' @ rest)"
    and x: "relax_edges current_node current_distance done' ?st1 = Inr st'"
  have "reach e start_node ?st1 (Visiting current_node current_distance)"
    by (rule reach_visit [OF r assms(2,3,4)])
  then have "reach e start_node ?st1 (Relaxing current_node current_distance [] (done' @ rest))"
    by (rule reach_lookup) (simp add: g)
  from relax_edges_reach_prefix [OF this x]
  have "reach e start_node st' (Relaxing current_node current_distance done' rest)" by simp
  from reach_phase_inv [OF this]
  show "map_of (distances st') current_node = Some (Finite current_distance)"
    by (simp add: phase_inv_def)
qed

text \<open>
  On the example graph, started at \<^verbatim>\<open>A\<close>, in the first pass: \<^verbatim>\<open>(0, 'A')\<close> is popped and the
  entry of \<^verbatim>\<open>A\<close> is 0, before the relaxation and after its first edge.
\<close>

theorem popped_distance_is_table_entry_witness:
  "loop_reach (init_state (init_engine example_graph) ''A'') (init_state (init_engine example_graph) ''A'')
   \<and> priority_queue (init_state (init_engine example_graph) ''A'') \<noteq> []
   \<and> heappop (priority_queue (init_state (init_engine example_graph) ''A'')) = ((0, ''A''), [])
   \<and> ''A'' \<notin> visited (init_state (init_engine example_graph) ''A'')
   \<and> map_of (distances (init_state (init_engine example_graph) ''A'')) ''A'' = Some (Finite 0)
   \<and> map_of (graph (init_state (init_engine example_graph) ''A'')) ''A'' = Some ([(''B'', 4)] @ [(''C'', 1)])
   \<and> map_of [(''A'', Finite 0), (''B'', Finite 4), (''C'', Infinity), (''D'', Infinity)] ''A'' = Some (Finite 0)"
proof -
  let ?st = "init_state (init_engine example_graph) ''A''"
  have 1: "loop_reach ?st ?st" by (rule loop_start)
  have 2: "priority_queue ?st \<noteq> []" by (simp add: init_state_def)
  have 3: "heappop (priority_queue ?st) = ((0, ''A''), [])" by code_simp
  have 4: "''A'' \<notin> visited ?st" by (simp add: init_state_def)
  have 5: "map_of (graph ?st) ''A'' = Some ([(''B'', 4)] @ [(''C'', 1)])"
    by (simp add: init_state_def init_engine_def example_graph_def)
  have 6: "relax_edges ''A'' 0 [(''B'', 4)]
         (?st\<lparr>priority_queue := [], visited := insert ''A'' (visited ?st),
             steps := steps ?st @ [Visit_node ''A'' (distances ?st) (insert ''A'' (visited ?st))]\<rparr>)
         = Inr \<lparr>graph = example_graph,
                steps = [Visit_node ''A'' [(''A'', Finite 0), (''B'', Infinity), (''C'', Infinity), (''D'', Infinity)] {''A''},
                         Relax_edge ''A'' ''B'' 4 [(''A'', Finite 0), (''B'', Finite 4), (''C'', Infinity), (''D'', Infinity)]],
                distances = [(''A'', Finite 0), (''B'', Finite 4), (''C'', Infinity), (''D'', Infinity)],
                visited = {''A''}, priority_queue = [(4, ''B'')]\<rparr>"
    by code_simp
  note t = popped_distance_is_table_entry [OF 1 2 3 4]
  from t have a: "map_of (distances ?st) ''A'' = Some (Finite 0)" by blast
  from t 5 6 have "map_of (distances \<lparr>graph = example_graph,
                steps = [Visit_node ''A'' [(''A'', Finite 0), (''B'', Infinity), (''C'', Infinity), (''D'', Infinity)] {''A''},
                         Relax_edge ''A'' ''B'' 4 [(''A'', Finite 0), (''B'', Finite 4), (''C'', Infinity), (''D'', Infinity)]],
                distances = [(''A'', Finite 0), (''B'', Finite 4), (''C'', Infinity), (''D'', Infinity)],
                visited = {''A''}, priority_queue = [(4, ''B'')]\<rparr>) ''A'' = Some (Finite 0)"
    by blast
  then have b: "map_of [(''A'', Finite 0), (''B'', Finite 4), (''C'', Infinity), (''D'', Infinity)] ''A'' = Some (Finite 0)"
    by simp
  from 1 2 3 4 5 a b show ?thesis by blast
qed

section \<open>The object after a call\<close>

lemma run_graph:
  assumes "run e s = Some (r, e')"
  shows "graph e' = graph e"
proof (cases r)
  case (Inl err)
  with assms have "stuck e s err e'" by (simp add: run_raised)
  then show ?thesis
    by (auto simp: stuck_def engine_of_def dest: reach_graph)
next
  case (Inr p)
  with assms obtain st where "reach e s st Loop_head" "e' = engine_of st"
    by (cases p) (auto dest: run_returned)
  then show ?thesis by (simp add: engine_of_def reach_graph)
qed

lemma run_fresh_engine:
  assumes "run (init_engine g) s = Some (Inr (d, new), e')"
  shows "e' = \<lparr>graph = g, steps = new\<rparr>"
proof -
  from run_returned [OF assms] obtain st where
    "reach (init_engine g) s st Loop_head" "new = steps st" "e' = engine_of st"
    by blast
  then show ?thesis by (simp add: engine_of_def reach_graph init_engine_def)
qed

section \<open>The trace of a run\<close>

lemma run_reach_final:
  assumes "run e s = Some (r, e')"
  shows "\<exists>st ph. reach e s st ph \<and> e' = engine_of st \<and>
    (case r of
       Inl err \<Rightarrow> True
     | Inr (d, tr) \<Rightarrow> ph = Loop_head \<and> priority_queue st = [] \<and> d = distances st \<and> tr = steps st)"
proof (cases r)
  case (Inl err)
  with assms have "stuck e s err e'" by (simp add: run_raised)
  with Inl show ?thesis unfolding stuck_def by auto
next
  case (Inr p)
  obtain d tr where p: "p = (d, tr)" by (cases p)
  from run_returned [OF assms [unfolded Inr p]] Inr p show ?thesis by auto
qed

lemma new_events_init: "new_events e (init_state e s) = []"
  by (simp add: new_events_def init_state_def)

lemma new_events_step:
  assumes "steps st = steps e @ new_events e st" and "steps st' = steps st @ evs"
  shows "new_events e st' = new_events e st @ evs"
proof -
  from assms(1) have "length (steps e) \<le> length (steps st)"
    by (metis le_add1 length_append)
  with assms(2) show ?thesis by (simp add: new_events_def)
qed

lemma new_events_same: "steps st' = steps st \<Longrightarrow> new_events e st' = new_events e st"
  by (simp add: new_events_def)

lemma reach_steps_ex: "reach e s st ph \<Longrightarrow> \<exists>new. steps st = steps e @ new"
proof (induction rule: reach.induct)
  case reach_init
  show ?case by (simp add: init_state_def)
next
  case (reach_relax st cn cd "done" item rest st')
  obtain nb w where item: "item = (nb, w)" by (cases item)
  from reach_relax.hyps(2) [unfolded item] reach_relax.IH show ?case
    by (cases rule: relax_edge_cases) auto
qed auto

lemma reach_steps: "reach e s st ph \<Longrightarrow> steps st = steps e @ new_events e st"
  by (auto simp: new_events_def dest: reach_steps_ex)

lemma new_events_engine_of: "new_events e (engine_of st) = new_events e st"
  by (simp add: new_events_def engine_of_def)

lemma trace_chain_snoc:
  "trace_chain d (evs @ [ev]) \<longleftrightarrow> trace_chain d evs \<and> event_ok (last_table d evs) ev"
  by (induction evs arbitrary: d) (auto simp: last_table_def)

lemma last_table_snoc: "last_table d (evs @ [ev]) = distances_of ev"
  by (simp add: last_table_def)

lemma trace_chain_append:
  "trace_chain d (xs @ ys) \<longleftrightarrow> trace_chain d xs \<and> trace_chain (last_table d xs) ys"
  by (induction xs arbitrary: d) (auto simp: last_table_def)

lemma reach_chain_inv: "reach e s st ph \<Longrightarrow> chain_inv e s st ph"
proof (induction rule: reach.induct)
  case reach_init
  show ?case by (simp add: chain_inv_def new_events_init last_table_def)
next
  case (reach_stale st cd cn q)
  then show ?case by (simp add: chain_inv_def new_events_def)
next
  case (reach_visit st cd cn q)
  let ?ev = "Visit_node cn (distances st) (insert cn (visited st))"
  let ?st' = "st\<lparr>priority_queue := q, visited := insert cn (visited st), steps := steps st @ [?ev]\<rparr>"
  have n: "new_events e ?st' = new_events e st @ [?ev]"
    by (rule new_events_step [OF reach_steps [OF reach_visit.hyps(1)]]) simp
  from reach_visit.IH show ?case
    by (simp add: chain_inv_def n trace_chain_snoc last_table_snoc)
next
  case (reach_lookup st cn cd nbrs)
  then show ?case by (simp add: chain_inv_def)
next
  case (reach_relax st cn cd "done" item rest st')
  obtain nb w where item: "item = (nb, w)" by (cases item)
  from reach_relax.hyps(2) [unfolded item] show ?case
  proof (cases rule: relax_edge_cases)
    case (improve old)
    let ?ev = "Relax_edge cn nb (cd + w) (AList.update nb (Finite (cd + w)) (distances st))"
    have n: "new_events e st' = new_events e st @ [?ev]"
      by (rule new_events_step [OF reach_steps [OF reach_relax.hyps(1)]]) (simp add: improve)
    have d: "distances st' = AList.update nb (Finite (cd + w)) (distances st)"
      by (simp add: improve)
    from reach_relax.IH improve(2,3) show ?thesis
      by (simp add: chain_inv_def n d trace_chain_snoc last_table_snoc)
  qed (use reach_relax.IH in \<open>simp_all add: chain_inv_def\<close>)
next
  case (reach_done st cn cd "done")
  then show ?case by (simp add: chain_inv_def)
qed

lemma reach_relax_sound:
  "reach e s st ph \<Longrightarrow> \<forall>ev \<in> set (new_events e st). relax_sound (graph e) ev"
proof (induction rule: reach.induct)
  case reach_init
  show ?case by (simp add: new_events_init)
next
  case (reach_stale st cd cn q)
  then show ?case by (simp add: new_events_def)
next
  case (reach_visit st cd cn q)
  let ?ev = "Visit_node cn (distances st) (insert cn (visited st))"
  let ?st' = "st\<lparr>priority_queue := q, visited := insert cn (visited st), steps := steps st @ [?ev]\<rparr>"
  have n: "new_events e ?st' = new_events e st @ [?ev]"
    by (rule new_events_step [OF reach_steps [OF reach_visit.hyps(1)]]) simp
  from reach_visit.IH show ?case
    by (simp add: n relax_sound_def)
next
  case (reach_relax st cn cd "done" item rest st')
  obtain nb w where item: "item = (nb, w)" by (cases item)
  from reach_phase_inv [OF reach_relax.hyps(1)] have
    ph: "cn \<in> visited st" "map_of (distances st) cn = Some (Finite cd)"
      "map_of (graph e) cn = Some (done @ (nb, w) # rest)"
    by (simp_all add: phase_inv_def item)
  from reach_relax.hyps(2) [unfolded item] show ?case
  proof (cases rule: relax_edge_cases)
    case (improve old)
    let ?ev = "Relax_edge cn nb (cd + w) (AList.update nb (Finite (cd + w)) (distances st))"
    have n: "new_events e st' = new_events e st @ [?ev]"
      by (rule new_events_step [OF reach_steps [OF reach_relax.hyps(1)]]) (simp add: improve)
    from improve ph have "nb \<noteq> cn" by auto
    with ph have "relax_sound (graph e) ?ev"
      unfolding relax_sound_def by (auto simp: update_conv')
    with reach_relax.IH show ?thesis by (simp add: n)
  qed (use reach_relax.IH in simp_all)
qed simp_all

lemma table_le_refl: "table_le d d"
  by (simp add: table_le_def)

lemma table_le_trans: "table_le d3 d2 \<Longrightarrow> table_le d2 d1 \<Longrightarrow> table_le d3 d1"
  unfolding table_le_def by (meson order_trans)

lemma event_ok_table_le: "event_ok prev ev \<Longrightarrow> table_le (distances_of ev) prev"
proof (cases ev)
  case (Visit_node n snap V)
  assume "event_ok prev ev"
  with Visit_node show ?thesis by (simp add: table_le_refl)
next
  case (Relax_edge f t nd snap)
  assume "event_ok prev ev"
  with Relax_edge obtain old where
    o: "map_of prev t = Some old" "Finite nd < old" "snap = AList.update t (Finite nd) prev"
    by (auto split: option.splits)
  show ?thesis
    unfolding table_le_def Relax_edge event.sel o(3)
    using o(1,2) by (auto simp: update_conv')
qed

lemma trace_chain_table_le:
  "trace_chain d evs \<Longrightarrow> ev \<in> set evs \<Longrightarrow> table_le (distances_of ev) d"
proof (induction evs arbitrary: d)
  case Nil
  then show ?case by simp
next
  case (Cons a evs)
  from Cons.prems(1) have a: "table_le (distances_of a) d" and c: "trace_chain (distances_of a) evs"
    by (simp_all add: event_ok_table_le)
  show ?case
  proof (cases "ev = a")
    case True
    with a show ?thesis by simp
  next
    case False
    with Cons.prems(2) have "ev \<in> set evs" by simp
    from Cons.IH [OF c this] a show ?thesis by (rule table_le_trans)
  qed
qed

lemma trace_chain_nth_le:
  "trace_chain d evs \<Longrightarrow> i \<le> j \<Longrightarrow> j < length evs \<Longrightarrow>
     table_le (distances_of (evs ! j)) (distances_of (evs ! i))"
proof (induction evs arbitrary: d i j)
  case Nil
  then show ?case by simp
next
  case (Cons a evs)
  from Cons.prems(1) have c: "trace_chain (distances_of a) evs" by simp
  show ?case
  proof (cases i)
    case 0
    show ?thesis
    proof (cases j)
      case 0
      with \<open>i = 0\<close> show ?thesis by (simp add: table_le_refl)
    next
      case (Suc j')
      with Cons.prems(3) have "evs ! j' \<in> set evs" by simp
      from trace_chain_table_le [OF c this] Suc \<open>i = 0\<close> show ?thesis by simp
    qed
  next
    case (Suc i')
    with Cons.prems(2) obtain j' where j: "j = Suc j'" by (cases j) auto
    with Suc Cons.prems have "i' \<le> j'" "j' < length evs" by simp_all
    from Cons.IH [OF c this] Suc j show ?thesis by simp
  qed
qed

lemma trace_chain_consecutive:
  "trace_chain d evs \<Longrightarrow> Suc i < length evs \<Longrightarrow> event_ok (distances_of (evs ! i)) (evs ! Suc i)"
proof (induction evs arbitrary: d i)
  case Nil
  then show ?case by simp
next
  case (Cons a evs)
  from Cons.prems(1) have c: "trace_chain (distances_of a) evs" by simp
  show ?case
  proof (cases i)
    case 0
    with Cons.prems(2) obtain b rest where "evs = b # rest" by (cases evs) auto
    with c 0 show ?thesis by simp
  next
    case (Suc i')
    with Cons.prems(2) have "Suc i' < length evs" by simp
    from Cons.IH [OF c this] Suc show ?thesis by simp
  qed
qed

lemma event_ok_cases:
  "event_ok prev ev \<Longrightarrow>
     distances_of ev = prev \<or>
     (\<exists>t nd old. map_of prev t = Some old \<and> Finite nd < old \<and>
        distances_of ev = AList.update t (Finite nd) prev)"
  by (cases ev) (auto split: option.splits)

lemma first_is_visit_snoc:
  "first_is_visit evs \<Longrightarrow> evs \<noteq> [] \<Longrightarrow> first_is_visit (evs @ [ev])"
  by (cases evs) (auto simp: first_is_visit_def split: event.splits)

lemma reach_first_is_visit: "reach e s st ph \<Longrightarrow> first_is_visit (new_events e st)"
proof (induction rule: reach.induct)
  case reach_init
  show ?case by (simp add: new_events_init first_is_visit_def)
next
  case (reach_stale st cd cn q)
  then show ?case by (simp add: new_events_def)
next
  case (reach_visit st cd cn q)
  let ?ev = "Visit_node cn (distances st) (insert cn (visited st))"
  let ?st' = "st\<lparr>priority_queue := q, visited := insert cn (visited st), steps := steps st @ [?ev]\<rparr>"
  have n: "new_events e ?st' = new_events e st @ [?ev]"
    by (rule new_events_step [OF reach_steps [OF reach_visit.hyps(1)]]) simp
  show ?case
  proof (cases "new_events e st = []")
    case True
    then show ?thesis by (simp add: n first_is_visit_def)
  next
    case False
    with reach_visit.IH show ?thesis by (simp add: n first_is_visit_snoc)
  qed
next
  case (reach_relax st cn cd "done" item rest st')
  obtain nb w where item: "item = (nb, w)" by (cases item)
  from reach_chain_inv [OF reach_relax.hyps(1)] have ne: "new_events e st \<noteq> []"
    by (simp add: chain_inv_def)
  from reach_relax.hyps(2) [unfolded item] show ?case
  proof (cases rule: relax_edge_cases)
    case (improve old)
    let ?ev = "Relax_edge cn nb (cd + w) (AList.update nb (Finite (cd + w)) (distances st))"
    have n: "new_events e st' = new_events e st @ [?ev]"
      by (rule new_events_step [OF reach_steps [OF reach_relax.hyps(1)]]) (simp add: improve)
    from reach_relax.IH ne show ?thesis by (simp add: n first_is_visit_snoc)
  qed (use reach_relax.IH in simp_all)
qed simp_all

lemma visit_order_append: "visit_order (xs @ ys) = visit_order xs @ visit_order ys"
  by (induction xs rule: visit_order.induct) simp_all

lemma visit_sets_append: "visit_sets (xs @ ys) = visit_sets xs @ visit_sets ys"
  by (induction xs rule: visit_sets.induct) simp_all

lemma reach_visits_inv: "reach e s st ph \<Longrightarrow> visits_inv e st ph"
proof (induction rule: reach.induct)
  case reach_init
  have "visited (init_state e s) = {}" by (simp add: init_state_def)
  then show ?case by (simp add: visits_inv_def new_events_init)
next
  case (reach_stale st cd cn q)
  then show ?case by (simp add: visits_inv_def new_events_def)
next
  case (reach_visit st cd cn q)
  let ?ev = "Visit_node cn (distances st) (insert cn (visited st))"
  let ?st' = "st\<lparr>priority_queue := q, visited := insert cn (visited st), steps := steps st @ [?ev]\<rparr>"
  let ?vs = "visit_order (new_events e st)"
  have n: "new_events e ?st' = new_events e st @ [?ev]"
    by (rule new_events_step [OF reach_steps [OF reach_visit.hyps(1)]]) simp
  from reach_visit.IH have ih: "distinct ?vs" "set ?vs = visited st"
    "length (visit_sets (new_events e st)) = length ?vs"
    "\<And>k. k < length ?vs \<Longrightarrow> visit_sets (new_events e st) ! k = set (take (Suc k) ?vs)"
    by (simp_all add: visits_inv_def)
  have vo: "visit_order (new_events e ?st') = ?vs @ [cn]"
    and vs: "visit_sets (new_events e ?st') = visit_sets (new_events e st) @ [insert cn (visited st)]"
    by (simp_all add: n visit_order_append visit_sets_append)
  have nth: "visit_sets (new_events e ?st') ! k = set (take (Suc k) (visit_order (new_events e ?st')))"
    if "k < length (visit_order (new_events e ?st'))" for k
  proof (cases "k < length ?vs")
    case True
    with ih(3,4) show ?thesis by (simp add: vo vs nth_append)
  next
    case False
    with that have "k = length ?vs" by (simp add: vo)
    with ih(2,3) show ?thesis by (simp add: vo vs nth_append)
  qed
  from ih(1,2,3) reach_visit.hyps(4) nth show ?case
    unfolding visits_inv_def by (simp add: vo vs)
next
  case (reach_lookup st cn cd nbrs)
  then show ?case by (simp add: visits_inv_def)
next
  case (reach_relax st cn cd "done" item rest st')
  obtain nb w where item: "item = (nb, w)" by (cases item)
  from reach_relax.hyps(2) [unfolded item] show ?case
  proof (cases rule: relax_edge_cases)
    case (improve old)
    let ?ev = "Relax_edge cn nb (cd + w) (AList.update nb (Finite (cd + w)) (distances st))"
    have n: "new_events e st' = new_events e st @ [?ev]"
      by (rule new_events_step [OF reach_steps [OF reach_relax.hyps(1)]]) (simp add: improve)
    have v: "visited st' = visited st" by (simp add: improve)
    from reach_relax.IH show ?thesis
      by (simp add: visits_inv_def n v visit_order_append visit_sets_append)
  qed (use reach_relax.IH in \<open>simp_all add: visits_inv_def\<close>)
next
  case (reach_done st cn cd "done")
  then show ?case by (simp add: visits_inv_def)
qed

lemma run_disconnected:
  "run (init_engine disconnected_graph) ''A'' =
     Some (Inr ([(''A'', Finite 0), (''B'', Finite 1), (''C'', Infinity)], disconnected_trace),
           \<lparr>graph = disconnected_graph, steps = disconnected_trace\<rparr>)"
  by code_simp

lemma new_events_disconnected:
  "new_events (init_engine disconnected_graph)
     \<lparr>graph = disconnected_graph, steps = disconnected_trace\<rparr> = disconnected_trace"
  by (simp add: new_events_def init_engine_def)


section \<open>Relaxation events\<close>

text \<open>
  C2. Every \<^verbatim>\<open>relax_edge\<close> event of a run, successful or not, has an event before
  it, and with \<open>prev\<close> the table recorded in that event (the table at the time, since
  every change of the table is recorded): the destination's entry in \<open>prev\<close> is
  strictly greater than the event's \<^verbatim>\<open>updated_distance\<close>; the event's table is \<open>prev\<close> with
  that one entry replaced; and the \<^verbatim>\<open>updated_distance\<close> is the source's entry in the
  event's table plus the weight of an edge from the source to the destination. A
  \<^verbatim>\<open>visit_node\<close> event records the table of the event before it unchanged (the initial
  table, when it is the first), and the table that is returned is the one of the last
  event: the table changes with \<^verbatim>\<open>relax_edge\<close> events only. At the
  level of one edge, for a neighbour that is not visited and has an entry \<open>old\<close>: when
  the candidate is strictly below \<open>old\<close> the entry is replaced, the pair is pushed and
  the event is appended; otherwise the state is returned as it is, with no event and no
  update. (No candidate is computed for a visited neighbour.)
\<close>

theorem relax_edge_events_are_strict_improvements:
  assumes "run e start_node = Some (r, e')"
  shows "steps e' = steps e @ new_events e e' \<and>
    (\<forall>pre f t nd snap post.
       new_events e e' = pre @ Relax_edge f t nd snap # post \<longrightarrow>
       pre \<noteq> [] \<and>
       (\<exists>nbrs w cd old.
          map_of (graph e) f = Some nbrs \<and> (t, w) \<in> set nbrs \<and>
          map_of snap f = Some (Finite cd) \<and> nd = cd + w \<and>
          map_of (distances_of (last pre)) t = Some old \<and> Finite nd < old \<and>
          snap = AList.update t (Finite nd) (distances_of (last pre)))) \<and>
    (\<forall>pre u snap V post.
       new_events e e' = pre @ Visit_node u snap V # post \<longrightarrow>
       snap = (if pre = [] then distances (init_state e start_node)
               else distances_of (last pre))) \<and>
    (\<forall>d tr. r = Inr (d, tr) \<longrightarrow>
       new_events e e' \<noteq> [] \<and> d = distances_of (last (new_events e e'))) \<and>
    (\<forall>cn cd nb w st old.
       nb \<notin> visited st \<longrightarrow> map_of (distances st) nb = Some old \<longrightarrow>
       relax_edge cn cd (nb, w) st =
         (if Finite (cd + w) < old then
            Inr (st\<lparr>distances := AList.update nb (Finite (cd + w)) (distances st),
                    priority_queue := heappush (priority_queue st) (cd + w, nb),
                    steps := steps st @
                      [Relax_edge cn nb (cd + w)
                         (AList.update nb (Finite (cd + w)) (distances st))]\<rparr>)
          else Inr (st :: 'a run_state)))"
proof -
  from run_reach_final [OF assms] obtain st ph where
    st: "reach e start_node st ph" "e' = engine_of st"
    and fin: "case r of Inl err \<Rightarrow> True
       | Inr (d, tr) \<Rightarrow> ph = Loop_head \<and> priority_queue st = [] \<and> d = distances st \<and> tr = steps st"
    by blast
  let ?new = "new_events e e'"
  let ?d0 = "distances (init_state e start_node)"
  have n: "?new = new_events e st"
    by (simp add: st(2) new_events_engine_of)
  from reach_chain_inv [OF st(1)] have
    chain: "trace_chain ?d0 ?new" and last: "last_table ?d0 ?new = distances st"
    by (simp_all add: chain_inv_def n)
  have 1: "steps e' = steps e @ ?new"
    using reach_steps [OF st(1)] by (simp add: n) (simp add: st(2) engine_of_def)
  have 2: "pre \<noteq> [] \<and>
       (\<exists>nbrs w cd old.
          map_of (graph e) f = Some nbrs \<and> (t, w) \<in> set nbrs \<and>
          map_of snap f = Some (Finite cd) \<and> nd = cd + w \<and>
          map_of (distances_of (last pre)) t = Some old \<and> Finite nd < old \<and>
          snap = AList.update t (Finite nd) (distances_of (last pre)))"
    if split: "?new = pre @ Relax_edge f t nd snap # post" for pre f t nd snap post
  proof -
    from reach_first_is_visit [OF st(1)] split n have ne: "pre \<noteq> []"
      by (auto simp: first_is_visit_def)
    from chain have "event_ok (last_table ?d0 pre) (Relax_edge f t nd snap)"
      by (simp add: split trace_chain_append)
    with ne obtain old where
      o: "map_of (distances_of (last pre)) t = Some old" "Finite nd < old"
         "snap = AList.update t (Finite nd) (distances_of (last pre))"
      by (auto simp: last_table_def split: option.splits)
    from reach_relax_sound [OF st(1)] have "relax_sound (graph e) (Relax_edge f t nd snap)"
      by (simp add: n [symmetric] split)
    then obtain nbrs w cd where
      "map_of (graph e) f = Some nbrs" "(t, w) \<in> set nbrs" "map_of snap f = Some (Finite cd)"
      "nd = cd + w"
      by (auto simp: relax_sound_def)
    with o ne show ?thesis by blast
  qed
  have 3: "snap = (if pre = [] then ?d0 else distances_of (last pre))"
    if split: "?new = pre @ Visit_node u snap V # post" for pre u snap V post
  proof -
    from chain have "event_ok (last_table ?d0 pre) (Visit_node u snap V)"
      by (simp add: split trace_chain_append)
    then show ?thesis by (simp add: last_table_def)
  qed
  have 4: "?new \<noteq> [] \<and> d = distances_of (last ?new)" if "r = Inr (d, tr)" for d tr
  proof -
    from that fin have h: "reach e start_node st Loop_head" "priority_queue st = []"
      and d: "d = distances st"
      using st(1) by simp_all
    from reach_start_le [OF h(1)] obtain y where "map_of (distances st) start_node = Some (Finite y)"
      by (auto simp: start_le_def)
    from finite_entry_visited [OF h this] reach_visits_inv [OF h(1)]
    have "start_node \<in> set (visit_order (new_events e st))"
      by (simp add: visits_inv_def)
    then have ne: "?new \<noteq> []" by (auto simp: n)
    with last d show ?thesis by (simp add: last_table_def)
  qed
  have 5: "relax_edge cn cd (nb, w) st =
         (if Finite (cd + w) < old then
            Inr (st\<lparr>distances := AList.update nb (Finite (cd + w)) (distances st),
                    priority_queue := heappush (priority_queue st) (cd + w, nb),
                    steps := steps st @
                      [Relax_edge cn nb (cd + w)
                         (AList.update nb (Finite (cd + w)) (distances st))]\<rparr>)
          else Inr st)"
    if "nb \<notin> visited st" "map_of (distances st) nb = Some old"
    for cn cd nb w and st :: "'a run_state" and old
    using that by (simp add: relax_edge_def Let_def)
  show ?thesis
  proof (intro conjI allI impI)
    show "steps e' = steps e @ ?new" by (rule 1)
  next
    fix pre f t nd snap post
    assume "?new = pre @ Relax_edge f t nd snap # post"
    from 2 [OF this] show "pre \<noteq> []" and "\<exists>nbrs w cd old.
          map_of (graph e) f = Some nbrs \<and> (t, w) \<in> set nbrs \<and>
          map_of snap f = Some (Finite cd) \<and> nd = cd + w \<and>
          map_of (distances_of (last pre)) t = Some old \<and> Finite nd < old \<and>
          snap = AList.update t (Finite nd) (distances_of (last pre))"
      by simp_all
  next
    fix pre u snap V post
    assume "?new = pre @ Visit_node u snap V # post"
    then show "snap = (if pre = [] then ?d0 else distances_of (last pre))" by (rule 3)
  next
    fix d tr assume "r = Inr (d, tr)"
    from 4 [OF this] show "?new \<noteq> []" and "d = distances_of (last ?new)" by simp_all
  next
    fix cn cd nb w and st :: "'a run_state" and old
    assume "nb \<notin> visited st" "map_of (distances st) nb = Some old"
    then show "relax_edge cn cd (nb, w) st =
         (if Finite (cd + w) < old then
            Inr (st\<lparr>distances := AList.update nb (Finite (cd + w)) (distances st),
                    priority_queue := heappush (priority_queue st) (cd + w, nb),
                    steps := steps st @
                      [Relax_edge cn nb (cd + w)
                         (AList.update nb (Finite (cd + w)) (distances st))]\<rparr>)
          else Inr st)"
      by (rule 5)
  qed
qed

text \<open>
  On the disconnected graph, started at \<^verbatim>\<open>A\<close>: the one \<^verbatim>\<open>relax_edge\<close> event lowers \<^verbatim>\<open>B\<close>
  from infinity to \<open>0 + 1\<close>; and an edge of weight 2 from a node at distance 5 to a node
  recorded at distance 1 changes nothing.
\<close>

theorem relax_edge_events_are_strict_improvements_witness:
  "run (init_engine disconnected_graph) ''A'' =
     Some (Inr ([(''A'', Finite 0), (''B'', Finite 1), (''C'', Infinity)], disconnected_trace),
           \<lparr>graph = disconnected_graph, steps = disconnected_trace\<rparr>)
   \<and> disconnected_trace =
       [Visit_node ''A'' [(''A'', Finite 0), (''B'', Infinity), (''C'', Infinity)] {''A''}] @
       Relax_edge ''A'' ''B'' 1 [(''A'', Finite 0), (''B'', Finite 1), (''C'', Infinity)] #
       [Visit_node ''B'' [(''A'', Finite 0), (''B'', Finite 1), (''C'', Infinity)] {''A'', ''B''}]
   \<and> (\<exists>nbrs w cd old.
         map_of disconnected_graph ''A'' = Some nbrs \<and> (''B'', w) \<in> set nbrs \<and>
         map_of [(''A'', Finite 0), (''B'', Finite 1), (''C'', Infinity)] ''A'' = Some (Finite cd) \<and>
         1 = cd + w \<and>
         map_of [(''A'', Finite 0), (''B'', Infinity), (''C'', Infinity)] ''B'' = Some old \<and>
         Finite 1 < old \<and>
         [(''A'', Finite 0), (''B'', Finite 1), (''C'', Infinity)] =
           AList.update ''B'' (Finite 1) [(''A'', Finite 0), (''B'', Infinity), (''C'', Infinity)])
   \<and> relax_edge ''C'' 5 (''B'', 2)
        \<lparr>graph = disconnected_graph, steps = [],
         distances = [(''A'', Finite 0), (''B'', Finite 1), (''C'', Finite 5)],
         visited = {''A'', ''C''}, priority_queue = [(1, ''B'')]\<rparr> =
      Inr \<lparr>graph = disconnected_graph, steps = [],
         distances = [(''A'', Finite 0), (''B'', Finite 1), (''C'', Finite 5)],
         visited = {''A'', ''C''}, priority_queue = [(1, ''B'')]\<rparr>"
proof -
  let ?e = "init_engine disconnected_graph"
  let ?e' = "\<lparr>graph = disconnected_graph, steps = disconnected_trace\<rparr>"
  let ?v1 = "Visit_node ''A'' [(''A'', Finite 0), (''B'', Infinity), (''C'', Infinity)] {''A''}"
  let ?snap = "[(''A'', Finite 0), (''B'', Finite 1), (''C'', Infinity)]"
  let ?v2 = "Visit_node ''B'' ?snap {''A'', ''B''}"
  let ?st = "\<lparr>graph = disconnected_graph, steps = [],
         distances = [(''A'', Finite 0), (''B'', Finite 1), (''C'', Finite 5)],
         visited = {''A'', ''C''}, priority_queue = [(1, ''B'')]\<rparr>"
  note t = relax_edge_events_are_strict_improvements [OF run_disconnected]
  have tr: "disconnected_trace = [?v1] @ Relax_edge ''A'' ''B'' 1 ?snap # [?v2]"
    by (simp add: disconnected_trace_def)
  have split: "new_events ?e ?e' = [?v1] @ Relax_edge ''A'' ''B'' 1 ?snap # [?v2]"
    unfolding new_events_disconnected by (rule tr)
  note t2 = t [THEN conjunct2, THEN conjunct1, rule_format, OF split, THEN conjunct2]
  have a: "\<exists>nbrs w cd old.
       map_of disconnected_graph ''A'' = Some nbrs \<and> (''B'', w) \<in> set nbrs \<and>
       map_of ?snap ''A'' = Some (Finite cd) \<and> 1 = cd + w \<and>
       map_of [(''A'', Finite 0), (''B'', Infinity), (''C'', Infinity)] ''B'' = Some old \<and>
       Finite 1 < old \<and>
       ?snap = AList.update ''B'' (Finite 1) [(''A'', Finite 0), (''B'', Infinity), (''C'', Infinity)]"
  proof -
    have lp: "distances_of (last [?v1]) = [(''A'', Finite 0), (''B'', Infinity), (''C'', Infinity)]"
      by simp
    have g: "graph ?e = disconnected_graph"
      by (simp add: init_engine_def)
    from t2 show ?thesis unfolding lp g .
  qed
  have v: "''B'' \<notin> visited ?st" and m: "map_of (distances ?st) ''B'' = Some (Finite 1)"
    by simp_all
  note t3 = t [THEN conjunct2, THEN conjunct2, THEN conjunct2, THEN conjunct2, rule_format,
      OF v m, of "''C''" 5 2]
  have b: "relax_edge ''C'' 5 (''B'', 2) ?st = Inr ?st"
    using t3 by simp
  show ?thesis
    by (intro conjI) (rule run_disconnected, rule tr, rule a, rule b)
qed

section \<open>Recorded distances over time\<close>

text \<open>
  C4. In the events of one run, successful or not: a node's entry in the table of a
  later event is never greater than its entry in the table of an earlier event, and
  the returned table is never greater than any recorded one. From one event to the
  next the table is either the same or differs in one entry, which strictly decreases.
  The table of the first event is the initial one: the start node at 0, placed as
  \<^verbatim>\<open>distances[start_node] = 0\<close> places it, and every node of the graph at infinity
  otherwise. The statement is about one run: \<^verbatim>\<open>self.steps\<close> also holds the events of the
  runs before, whose tables are unrelated.
\<close>

theorem recorded_distances_never_increase:
  assumes "run e start_node = Some (r, e')"
  shows "steps e' = steps e @ new_events e e' \<and>
    (\<forall>i j v x. i \<le> j \<longrightarrow> j < length (new_events e e') \<longrightarrow>
       map_of (distances_of (new_events e e' ! i)) v = Some x \<longrightarrow>
       (\<exists>y. map_of (distances_of (new_events e e' ! j)) v = Some y \<and> y \<le> x)) \<and>
    (\<forall>d tr i v x. r = Inr (d, tr) \<longrightarrow> i < length (new_events e e') \<longrightarrow>
       map_of (distances_of (new_events e e' ! i)) v = Some x \<longrightarrow>
       (\<exists>y. map_of d v = Some y \<and> y \<le> x)) \<and>
    (\<forall>i. Suc i < length (new_events e e') \<longrightarrow>
       distances_of (new_events e e' ! Suc i) = distances_of (new_events e e' ! i) \<or>
       (\<exists>t nd old.
          map_of (distances_of (new_events e e' ! i)) t = Some old \<and> Finite nd < old \<and>
          distances_of (new_events e e' ! Suc i) =
            AList.update t (Finite nd) (distances_of (new_events e e' ! i)))) \<and>
    (new_events e e' \<noteq> [] \<longrightarrow>
       distances_of (new_events e e' ! 0) =
         AList.update start_node (Finite 0) (map (\<lambda>(node, _). (node, Infinity)) (graph e)))"
proof -
  from run_reach_final [OF assms] obtain st ph where
    st: "reach e start_node st ph" "e' = engine_of st"
    and fin: "case r of Inl err \<Rightarrow> True
       | Inr (d, tr) \<Rightarrow> ph = Loop_head \<and> priority_queue st = [] \<and> d = distances st \<and> tr = steps st"
    by blast
  let ?new = "new_events e e'"
  let ?d0 = "distances (init_state e start_node)"
  have n: "?new = new_events e st"
    by (simp add: st(2) new_events_engine_of)
  from reach_chain_inv [OF st(1)] have
    chain: "trace_chain ?d0 ?new" and last: "last_table ?d0 ?new = distances st"
    by (simp_all add: chain_inv_def n)
  have 5: "distances_of (?new ! 0) =
      AList.update start_node (Finite 0) (map (\<lambda>(node, _). (node, Infinity)) (graph e))"
    if "?new \<noteq> []"
  proof -
    from that obtain ev evs where ev: "?new = ev # evs" by (cases ?new) auto
    from reach_first_is_visit [OF st(1)] ev n obtain u snap V where "ev = Visit_node u snap V"
      by (cases ev) (auto simp: first_is_visit_def)
    with chain ev have "distances_of (?new ! 0) = ?d0" by simp
    then show ?thesis by (simp add: init_state_def)
  qed
  have 1: "steps e' = steps e @ ?new"
    using reach_steps [OF st(1)] by (simp add: n) (simp add: st(2) engine_of_def)
  have 2: "\<exists>y. map_of (distances_of (?new ! j)) v = Some y \<and> y \<le> x"
    if "i \<le> j" "j < length ?new" "map_of (distances_of (?new ! i)) v = Some x" for i j v x
    using trace_chain_nth_le [OF chain that(1,2)] that(3) by (simp add: table_le_def)
  have 3: "\<exists>y. map_of d v = Some y \<and> y \<le> x"
    if "r = Inr (d, tr)" "i < length ?new" "map_of (distances_of (?new ! i)) v = Some x"
    for d tr i v x
  proof -
    from that(1) fin have d: "d = distances st" by simp
    from that(2) have ne: "?new \<noteq> []" by auto
    with last have "distances st = distances_of (last ?new)" by (simp add: last_table_def)
    also have "last ?new = ?new ! (length ?new - 1)" using ne by (rule last_conv_nth)
    finally have "d = distances_of (?new ! (length ?new - 1))" using d by simp
    moreover from that(2) have "i \<le> length ?new - 1" "length ?new - 1 < length ?new" by simp_all
    ultimately show ?thesis using 2 [OF _ _ that(3)] by simp
  qed
  have 4: "distances_of (?new ! Suc i) = distances_of (?new ! i) \<or>
       (\<exists>t nd old.
          map_of (distances_of (?new ! i)) t = Some old \<and> Finite nd < old \<and>
          distances_of (?new ! Suc i) = AList.update t (Finite nd) (distances_of (?new ! i)))"
    if "Suc i < length ?new" for i
    using trace_chain_consecutive [OF chain that] by (rule event_ok_cases)
  from 1 2 3 4 5 show ?thesis by blast
qed

text \<open>
  On the disconnected graph, started at \<^verbatim>\<open>A\<close>: the entry of \<^verbatim>\<open>B\<close> is infinity in the first
  event, and not greater in the second event and in the returned table.
\<close>

theorem recorded_distances_never_increase_witness:
  "run (init_engine disconnected_graph) ''A'' =
     Some (Inr ([(''A'', Finite 0), (''B'', Finite 1), (''C'', Infinity)], disconnected_trace),
           \<lparr>graph = disconnected_graph, steps = disconnected_trace\<rparr>)
   \<and> (0::nat) \<le> 1 \<and> 1 < length disconnected_trace
   \<and> map_of (distances_of (disconnected_trace ! 0)) ''B'' = Some Infinity
   \<and> (\<exists>y. map_of (distances_of (disconnected_trace ! 1)) ''B'' = Some y \<and> y \<le> Infinity)
   \<and> (\<exists>y. map_of [(''A'', Finite 0), (''B'', Finite 1), (''C'', Infinity)] ''B'' = Some y \<and>
          y \<le> Infinity)"
proof -
  let ?e = "init_engine disconnected_graph"
  let ?e' = "\<lparr>graph = disconnected_graph, steps = disconnected_trace\<rparr>"
  note t = recorded_distances_never_increase [OF run_disconnected, unfolded new_events_disconnected]
  have l: "(0::nat) \<le> 1" "1 < length disconnected_trace" "0 < length disconnected_trace"
    by (simp_all add: disconnected_trace_def)
  have m: "map_of (distances_of (disconnected_trace ! 0)) ''B'' = Some Infinity"
    by (simp add: disconnected_trace_def)
  note a = t [THEN conjunct2, THEN conjunct1, rule_format, OF l(1,2) m]
  note b = t [THEN conjunct2, THEN conjunct2, THEN conjunct1, rule_format, OF refl l(3) m]
  show ?thesis
    by (intro conjI) (rule run_disconnected, rule l(1), rule l(2), rule m, rule a, rule b)
qed

section \<open>Paths and the table\<close>

lemma reach_path_sound: "reach e s st ph \<Longrightarrow> path_sound (graph e) s st"
proof (induction rule: reach.induct)
  case reach_init
  show ?case
    by (auto simp: path_sound_def init_state_def update_conv' map_of_map walk_here
        split: if_splits option.splits)
next
  case (reach_relax st cn cd "done" item rest st')
  obtain nb w where item: "item = (nb, w)" by (cases item)
  from reach_phase_inv [OF reach_relax.hyps(1)] have
    ph: "map_of (distances st) cn = Some (Finite cd)"
      "map_of (graph e) cn = Some (done @ (nb, w) # rest)"
    by (simp_all add: phase_inv_def item)
  from reach_relax.hyps(2) [unfolded item] show ?case
  proof (cases rule: relax_edge_cases)
    case (improve old)
    from reach_relax.IH ph(1) have "walk (graph e) s cn cd"
      by (simp add: path_sound_def)
    from walk_edge [OF this ph(2), of nb w] have "walk (graph e) s nb (cd + w)" by simp
    with reach_relax.IH show ?thesis
      by (auto simp: path_sound_def improve(4) update_conv')
  qed (use reach_relax.IH in simp_all)
qed (simp_all add: path_sound_def)

lemma relax_edge_mono:
  assumes "relax_edge cn cd item st = Inr st'" and "map_of (distances st) v = Some (Finite y)"
  shows "\<exists>y'\<le>y. map_of (distances st') v = Some (Finite y')"
proof -
  obtain nb w where item: "item = (nb, w)" by (cases item)
  from assms(1) [unfolded item] show ?thesis
  proof (cases rule: relax_edge_cases)
    case (improve old)
    with assms(2) show ?thesis by (auto simp: update_conv')
  qed (use assms(2) in auto)
qed

lemma relax_edge_visited_same:
  assumes "relax_edge cn cd item st = Inr st'" and "v \<in> visited st"
  shows "map_of (distances st') v = map_of (distances st) v"
proof -
  obtain nb w where item: "item = (nb, w)" by (cases item)
  from assms(1) [unfolded item] show ?thesis
  proof (cases rule: relax_edge_cases)
    case (improve old)
    with assms(2) show ?thesis by (auto simp: update_conv')
  qed auto
qed

lemma not_less_Finite: "\<not> Finite a < old \<Longrightarrow> \<exists>y\<le>a. old = Finite y"
  by (cases old) auto

lemma reach_edges_seen: "reach e s st ph \<Longrightarrow> edges_seen (graph e) st ph"
proof (induction rule: reach.induct)
  case reach_init
  show ?case by (simp add: edges_seen_def init_state_def)
next
  case (reach_stale st cd cn q)
  then show ?case by (simp add: edges_seen_def)
next
  case (reach_visit st cd cn q)
  let ?st' = "st\<lparr>priority_queue := q, visited := insert cn (visited st),
     steps := steps st @ [Visit_node cn (distances st) (insert cn (visited st))]\<rparr>"
  show ?case unfolding edges_seen_def
  proof (intro ballI)
    fix u p assume u: "u \<in> visited ?st'" and p: "p \<in> set (handled (graph e) (Visiting cn cd) u)"
    from p have "u \<noteq> cn" by (auto simp: handled_def split: if_splits)
    with u p have "u \<in> visited st" "p \<in> set (handled (graph e) Loop_head u)"
      by (simp_all add: handled_def)
    with reach_visit.IH show "case p of (v, w) \<Rightarrow> \<exists>y. map_of (distances ?st') v = Some (Finite y)"
      by (auto simp: edges_seen_def)
  qed
next
  case (reach_lookup st cn cd nbrs)
  then show ?case by (simp add: edges_seen_def handled_def)
next
  case (reach_relax st cn cd "done" item rest st')
  obtain nb w where item: "item = (nb, w)" by (cases item)
  note step = reach_relax.hyps(2)
  from relax_edge_frame [OF step] have vis: "visited st' = visited st" by simp
  note mono = relax_edge_mono [OF step]
  have item_ok: "\<exists>y. map_of (distances st') nb = Some (Finite y)"
    using step [unfolded item]
  proof (cases rule: relax_edge_cases)
    case visited
    with reach_visited_finite [OF reach_relax.hyps(1)] show ?thesis
      by (auto simp: visited_finite_def)
  next
    case (keep old)
    from not_less_Finite [OF keep(3)] keep(2,4) show ?thesis by auto
  next
    case (improve old)
    then show ?thesis by (simp add: update_conv')
  qed
  show ?case unfolding edges_seen_def
  proof (intro ballI)
    fix u p
    assume u: "u \<in> visited st'"
      and p: "p \<in> set (handled (graph e) (Relaxing cn cd (done @ [item]) rest) u)"
    obtain v w' where pv: "p = (v, w')" by (cases p)
    from u vis have uv: "u \<in> visited st" by simp
    from p have "p \<in> set (handled (graph e) (Relaxing cn cd done (item # rest)) u) \<or> p = item"
      by (auto simp: handled_def split: if_splits)
    then have "\<exists>y. map_of (distances st') v = Some (Finite y)"
    proof
      assume "p \<in> set (handled (graph e) (Relaxing cn cd done (item # rest)) u)"
      with reach_relax.IH uv pv obtain y where "map_of (distances st) v = Some (Finite y)"
        by (fastforce simp: edges_seen_def)
      from mono [OF this] show ?thesis by blast
    next
      assume "p = item"
      with item pv item_ok show ?thesis by simp
    qed
    with pv show "case p of (v, w) \<Rightarrow> \<exists>y. map_of (distances st') v = Some (Finite y)"
      by simp
  qed
next
  case (reach_done st cn cd "done")
  from reach_phase_inv [OF reach_done.hyps(1)] have "map_of (graph e) cn = Some done"
    by (simp add: phase_inv_def)
  then have "handled (graph e) Loop_head u = handled (graph e) (Relaxing cn cd done []) u" for u
    by (simp add: handled_def edges_of_def)
  with reach_done.IH show ?case by (simp add: edges_seen_def)
qed

lemma final_visits_reachable:
  assumes r: "reach e s st Loop_head" and q: "priority_queue st = []"
    and w: "walk (graph e) s v z"
  shows "v \<in> visited st"
  using w
proof (induction rule: walk.induct)
  case walk_here
  from reach_start_le [OF r] obtain y where "map_of (distances st) s = Some (Finite y)"
    by (auto simp: start_le_def)
  then show ?case by (rule finite_entry_visited [OF r q])
next
  case (walk_edge v x nbrs t w)
  from walk_edge.hyps(2,3) have "(t, w) \<in> set (handled (graph e) Loop_head v)"
    by (simp add: handled_def edges_of_def)
  with reach_edges_seen [OF r] walk_edge.IH obtain y where
    "map_of (distances st) t = Some (Finite y)"
    by (fastforce simp: edges_seen_def)
  then show ?case by (rule finite_entry_visited [OF r q])
qed

lemma visited_reachable:
  assumes r: "reach e s st ph" and v: "v \<in> visited st"
  shows "\<exists>z. walk (graph e) s v z"
proof -
  from reach_visited_finite [OF r] v obtain y where "map_of (distances st) v = Some (Finite y)"
    by (auto simp: visited_finite_def)
  with reach_path_sound [OF r] show ?thesis by (auto simp: path_sound_def)
qed

section \<open>Visited nodes\<close>

text \<open>
  C3 as stated fails for a node that cannot be reached: in the disconnected scenario,
  started at \<^verbatim>\<open>A\<close>, the node \<^verbatim>\<open>C\<close> is a key of the graph and is the node of no
  \<^verbatim>\<open>visit_node\<close> event.
\<close>

theorem visit_once_counterexample:
  "run (init_engine disconnected_graph) ''A'' =
     Some (Inr ([(''A'', Finite 0), (''B'', Finite 1), (''C'', Infinity)],
                [Visit_node ''A'' [(''A'', Finite 0), (''B'', Infinity), (''C'', Infinity)] {''A''},
                 Relax_edge ''A'' ''B'' 1 [(''A'', Finite 0), (''B'', Finite 1), (''C'', Infinity)],
                 Visit_node ''B'' [(''A'', Finite 0), (''B'', Finite 1), (''C'', Infinity)]
                   {''A'', ''B''}]),
           \<lparr>graph = disconnected_graph,
            steps =
              [Visit_node ''A'' [(''A'', Finite 0), (''B'', Infinity), (''C'', Infinity)] {''A''},
               Relax_edge ''A'' ''B'' 1 [(''A'', Finite 0), (''B'', Finite 1), (''C'', Infinity)],
               Visit_node ''B'' [(''A'', Finite 0), (''B'', Finite 1), (''C'', Infinity)]
                 {''A'', ''B''}]\<rparr>)
   \<and> ''C'' \<in> keys disconnected_graph
   \<and> count_list
       (visit_order
          [Visit_node ''A'' [(''A'', Finite 0), (''B'', Infinity), (''C'', Infinity)] {''A''},
           Relax_edge ''A'' ''B'' 1 [(''A'', Finite 0), (''B'', Finite 1), (''C'', Infinity)],
           Visit_node ''B'' [(''A'', Finite 0), (''B'', Finite 1), (''C'', Infinity)]
             {''A'', ''B''}]) ''C'' = 0"
proof (intro conjI)
  show "run (init_engine disconnected_graph) ''A'' =
     Some (Inr ([(''A'', Finite 0), (''B'', Finite 1), (''C'', Infinity)],
                [Visit_node ''A'' [(''A'', Finite 0), (''B'', Infinity), (''C'', Infinity)] {''A''},
                 Relax_edge ''A'' ''B'' 1 [(''A'', Finite 0), (''B'', Finite 1), (''C'', Infinity)],
                 Visit_node ''B'' [(''A'', Finite 0), (''B'', Finite 1), (''C'', Infinity)]
                   {''A'', ''B''}]),
           \<lparr>graph = disconnected_graph,
            steps =
              [Visit_node ''A'' [(''A'', Finite 0), (''B'', Infinity), (''C'', Infinity)] {''A''},
               Relax_edge ''A'' ''B'' 1 [(''A'', Finite 0), (''B'', Finite 1), (''C'', Infinity)],
               Visit_node ''B'' [(''A'', Finite 0), (''B'', Finite 1), (''C'', Infinity)]
                 {''A'', ''B''}]\<rparr>)"
    by code_simp
  show "''C'' \<in> keys disconnected_graph"
    by (simp add: keys_def disconnected_graph_def)
  show "count_list
       (visit_order
          [Visit_node ''A'' [(''A'', Finite 0), (''B'', Infinity), (''C'', Infinity)] {''A''},
           Relax_edge ''A'' ''B'' 1 [(''A'', Finite 0), (''B'', Finite 1), (''C'', Infinity)],
           Visit_node ''B'' [(''A'', Finite 0), (''B'', Finite 1), (''C'', Infinity)]
             {''A'', ''B''}]) ''C'' = 0"
    by simp
qed

text \<open>
  C3, amended. In the events of one run, successful or not, no node is the node of two
  \<^verbatim>\<open>visit_node\<close> events, and each such node can be reached from the start node. When the
  run returns, the nodes of the \<^verbatim>\<open>visit_node\<close> events are exactly the nodes whose
  distance in the returned table is below the sentinel (each once); the weights being
  integers, these are exactly the nodes that can be reached from the start node, so a
  node that cannot be reached has none. (With \<^verbatim>\<open>float\<close> weights a node that can be reached
  may stay at the sentinel, and then it has none either: see \<open>overflow_graph\<close>.) The set
  recorded in the \<open>k\<close>-th \<^verbatim>\<open>visit_node\<close> event consists of the nodes of the first \<open>k\<close> such
  events: it has \<open>k\<close> elements, and it is the set recorded in the event before with the
  node of this event, which was not in it, added.
\<close>

theorem visit_events_once_per_reached_node:
  assumes "run e start_node = Some (r, e')"
  shows "distinct (visit_order (new_events e e')) \<and>
    length (visit_sets (new_events e e')) = length (visit_order (new_events e e')) \<and>
    (\<forall>k < length (visit_order (new_events e e')).
       visit_sets (new_events e e') ! k = set (take (Suc k) (visit_order (new_events e e'))) \<and>
       card (visit_sets (new_events e e') ! k) = Suc k) \<and>
    (\<forall>k. Suc k < length (visit_order (new_events e e')) \<longrightarrow>
       visit_order (new_events e e') ! Suc k \<notin> visit_sets (new_events e e') ! k \<and>
       visit_sets (new_events e e') ! Suc k =
         insert (visit_order (new_events e e') ! Suc k) (visit_sets (new_events e e') ! k)) \<and>
    set (visit_order (new_events e e')) \<subseteq> {v. \<exists>z. walk (graph e) start_node v z} \<and>
    (\<forall>d tr. r = Inr (d, tr) \<longrightarrow>
       set (visit_order (new_events e e')) = {v. \<exists>y. map_of d v = Some (Finite y)}) \<and>
    (\<forall>d tr. r = Inr (d, tr) \<longrightarrow>
       set (visit_order (new_events e e')) = {v. \<exists>z. walk (graph e) start_node v z})"
proof -
  from run_reach_final [OF assms] obtain st ph where
    st: "reach e start_node st ph" "e' = engine_of st"
    and fin: "case r of Inl err \<Rightarrow> True
       | Inr (d, tr) \<Rightarrow> ph = Loop_head \<and> priority_queue st = [] \<and> d = distances st \<and> tr = steps st"
    by blast
  let ?new = "new_events e e'"
  let ?vs = "visit_order ?new"
  have n: "?new = new_events e st"
    by (simp add: st(2) new_events_engine_of)
  from reach_visits_inv [OF st(1)] have
    1: "distinct ?vs" and v: "set ?vs = visited st"
    and 2: "length (visit_sets ?new) = length ?vs"
    and nth: "\<And>k. k < length ?vs \<Longrightarrow> visit_sets ?new ! k = set (take (Suc k) ?vs)"
    by (simp_all add: visits_inv_def n)
  have 3: "visit_sets ?new ! k = set (take (Suc k) ?vs) \<and> card (visit_sets ?new ! k) = Suc k"
    if "k < length ?vs" for k
  proof -
    from 1 have "distinct (take (Suc k) ?vs)" by simp
    then have "card (set (take (Suc k) ?vs)) = length (take (Suc k) ?vs)"
      by (rule distinct_card)
    with that nth [OF that] show ?thesis by simp
  qed
  have 6: "?vs ! Suc k \<notin> visit_sets ?new ! k \<and>
      visit_sets ?new ! Suc k = insert (?vs ! Suc k) (visit_sets ?new ! k)"
    if "Suc k < length ?vs" for k
  proof -
    from that have k: "k < length ?vs" by simp
    have t: "take (Suc (Suc k)) ?vs = take (Suc k) ?vs @ [?vs ! Suc k]"
      using that by (rule take_Suc_conv_app_nth)
    from 1 have "distinct (take (Suc (Suc k)) ?vs)" by simp
    then have "?vs ! Suc k \<notin> set (take (Suc k) ?vs)"
      unfolding t by simp
    moreover have "set (take (Suc (Suc k)) ?vs) = insert (?vs ! Suc k) (set (take (Suc k) ?vs))"
      unfolding t by simp
    ultimately show ?thesis using nth [OF k] nth [OF that] by simp
  qed
  have 4: "set ?vs \<subseteq> {v. \<exists>z. walk (graph e) start_node v z}"
    using visited_reachable [OF st(1)] by (auto simp: v)
  have 5: "set ?vs = {v. \<exists>z. walk (graph e) start_node v z}" if "r = Inr (d, tr)" for d tr
  proof -
    from that fin have h: "reach e start_node st Loop_head" "priority_queue st = []"
      using st(1) by simp_all
    from final_visits_reachable [OF h] 4 show ?thesis by (auto simp: v)
  qed
  have 7: "set ?vs = {v. \<exists>y. map_of d v = Some (Finite y)}" if "r = Inr (d, tr)" for d tr
  proof -
    from that fin have h: "reach e start_node st Loop_head" "priority_queue st = []"
      and d: "d = distances st"
      using st(1) by simp_all
    from reach_visited_finite [OF h(1)] have "\<exists>y. map_of d u = Some (Finite y)" if "u \<in> visited st" for u
      using that by (auto simp: visited_finite_def d)
    moreover have "u \<in> visited st" if "map_of d u = Some (Finite y)" for u y
      using finite_entry_visited [OF h] that by (simp add: d)
    ultimately show ?thesis by (auto simp: v)
  qed
  from 1 2 3 4 5 6 7 show ?thesis by blast
qed

text \<open>
  On the disconnected graph, started at \<^verbatim>\<open>A\<close>: the visited nodes are \<^verbatim>\<open>A\<close> and \<^verbatim>\<open>B\<close>, each
  once, the second recorded set has two elements, and these are the nodes with a
  distance below the sentinel and the nodes that can be reached.
\<close>

theorem visit_events_once_per_reached_node_witness:
  "run (init_engine disconnected_graph) ''A'' =
     Some (Inr ([(''A'', Finite 0), (''B'', Finite 1), (''C'', Infinity)], disconnected_trace),
           \<lparr>graph = disconnected_graph, steps = disconnected_trace\<rparr>)
   \<and> distinct (visit_order disconnected_trace)
   \<and> length (visit_sets disconnected_trace) = length (visit_order disconnected_trace)
   \<and> (1::nat) < length (visit_order disconnected_trace)
   \<and> visit_sets disconnected_trace ! 1 = set (take (Suc 1) (visit_order disconnected_trace))
   \<and> card (visit_sets disconnected_trace ! 1) = Suc 1
   \<and> set (visit_order disconnected_trace) =
       {v. \<exists>y. map_of [(''A'', Finite 0), (''B'', Finite 1), (''C'', Infinity)] v = Some (Finite y)}
   \<and> set (visit_order disconnected_trace) =
       {v. \<exists>z. walk (graph (init_engine disconnected_graph)) ''A'' v z}"
proof -
  note t = visit_events_once_per_reached_node [OF run_disconnected,
      unfolded new_events_disconnected]
  have l: "(1::nat) < length (visit_order disconnected_trace)"
    by (simp add: disconnected_trace_def)
  note k = t [THEN conjunct2, THEN conjunct2, THEN conjunct1, rule_format, OF l]
  show ?thesis
    by (intro conjI)
      (rule run_disconnected, rule t [THEN conjunct1],
       rule t [THEN conjunct2, THEN conjunct1], rule l,
       rule k [THEN conjunct1], rule k [THEN conjunct2],
       rule t [THEN conjunct2, THEN conjunct2, THEN conjunct2, THEN conjunct2, THEN conjunct2,
         THEN conjunct1, rule_format, OF refl],
       rule t [THEN conjunct2, THEN conjunct2, THEN conjunct2, THEN conjunct2, THEN conjunct2,
         THEN conjunct2, rule_format, OF refl])
qed

section \<open>Runs on one object\<close>

text \<open>
  C7. \<^verbatim>\<open>self.steps\<close> is created once, in \<^verbatim>\<open>__init__\<close>, and \<^verbatim>\<open>run\<close> only appends to it. On
  an object that holds the events of earlier calls, a call returns those events
  followed by the events \<open>n\<close> that the same call returns on a new object, and leaves
  them all in the object. In particular, if the first call on a new object returns
  the trace \<open>n1\<close>, and \<open>n2\<close> is the trace that a call from \<open>s2\<close> returns on a new object of
  its own, then the second call on the first object, from \<open>s2\<close>, returns \<open>n1 @ n2\<close>: the
  events of the first run followed by those of the second, not \<open>n2\<close> alone; the
  distance table is that of the second run.
\<close>

theorem trace_accumulates_across_runs:
  "(run (init_engine (graph e)) s = Some (Inr (d, n), e0) \<longrightarrow>
      run e s = Some (Inr (d, steps e @ n), \<lparr>graph = graph e, steps = steps e @ n\<rparr>)) \<and>
   (run (init_engine g) s1 = Some (Inr (d1, n1), e1) \<longrightarrow>
    run (init_engine g) s2 = Some (Inr (d2, n2), e2) \<longrightarrow>
      run e1 s2 = Some (Inr (d2, n1 @ n2), \<lparr>graph = g, steps = n1 @ n2\<rparr>))"
proof (intro conjI impI)
  assume r: "run (init_engine (graph e)) s = Some (Inr (d, n), e0)"
  have "e\<lparr>steps := []\<rparr> = init_engine (graph e)"
    by (simp add: init_engine_def)
  with run_history [of e s] r run_fresh_engine [OF r]
  show "run e s = Some (Inr (d, steps e @ n), \<lparr>graph = graph e, steps = steps e @ n\<rparr>)"
    by simp
next
  assume first: "run (init_engine g) s1 = Some (Inr (d1, n1), e1)"
    and second: "run (init_engine g) s2 = Some (Inr (d2, n2), e2)"
  have e1: "e1 = \<lparr>graph = g, steps = n1\<rparr>" and e2: "e2 = \<lparr>graph = g, steps = n2\<rparr>"
    using first second by (simp_all add: run_fresh_engine)
  have "e1\<lparr>steps := []\<rparr> = init_engine g"
    by (simp add: e1 init_engine_def)
  with run_history [of e1 s2] second
  show "run e1 s2 = Some (Inr (d2, n1 @ n2), \<lparr>graph = g, steps = n1 @ n2\<rparr>)"
    by (simp add: e1 e2)
qed

text \<open>
  On the disconnected graph: a first run from \<^verbatim>\<open>A\<close> leaves three events, a run from \<^verbatim>\<open>B\<close>
  alone leaves one, and the run from \<^verbatim>\<open>B\<close> on the object of the first returns all four.
\<close>

theorem trace_accumulates_across_runs_witness:
  "run (init_engine disconnected_graph) ''A'' =
     Some (Inr ([(''A'', Finite 0), (''B'', Finite 1), (''C'', Infinity)], disconnected_trace),
           \<lparr>graph = disconnected_graph, steps = disconnected_trace\<rparr>)
   \<and> run (init_engine disconnected_graph) ''B'' =
     Some (Inr ([(''A'', Infinity), (''B'', Finite 0), (''C'', Infinity)],
                [Visit_node ''B'' [(''A'', Infinity), (''B'', Finite 0), (''C'', Infinity)] {''B''}]),
           \<lparr>graph = disconnected_graph,
            steps =
              [Visit_node ''B'' [(''A'', Infinity), (''B'', Finite 0), (''C'', Infinity)]
                 {''B''}]\<rparr>)
   \<and> run \<lparr>graph = disconnected_graph, steps = disconnected_trace\<rparr> ''B'' =
     Some (Inr ([(''A'', Infinity), (''B'', Finite 0), (''C'', Infinity)],
                disconnected_trace @
                [Visit_node ''B'' [(''A'', Infinity), (''B'', Finite 0), (''C'', Infinity)] {''B''}]),
           \<lparr>graph = disconnected_graph,
            steps = disconnected_trace @
              [Visit_node ''B'' [(''A'', Infinity), (''B'', Finite 0), (''C'', Infinity)]
                 {''B''}]\<rparr>)"
proof -
  have second: "run (init_engine disconnected_graph) ''B'' =
     Some (Inr ([(''A'', Infinity), (''B'', Finite 0), (''C'', Infinity)],
                [Visit_node ''B'' [(''A'', Infinity), (''B'', Finite 0), (''C'', Infinity)] {''B''}]),
           \<lparr>graph = disconnected_graph,
            steps =
              [Visit_node ''B'' [(''A'', Infinity), (''B'', Finite 0), (''C'', Infinity)]
                 {''B''}]\<rparr>)"
    by code_simp
  note t = trace_accumulates_across_runs [THEN conjunct2, rule_format,
      OF run_disconnected second]
  show ?thesis
    by (intro conjI) (rule run_disconnected, rule second, rule t)
qed

section \<open>Edges to nodes that are not in the graph\<close>



section \<open>Shortest distances\<close>

lemma frontier:
  assumes rel: "edges_relaxed g st Loop_head" and nn: "nonneg_weights g"
    and sl: "start_le s st" and w: "walk g s v z"
  shows "(v \<in> visited st \<and> (\<exists>y. map_of (distances st) v = Some (Finite y) \<and> y \<le> z)) \<or>
         (\<exists>u y. u \<notin> visited st \<and> map_of (distances st) u = Some (Finite y) \<and> y \<le> z)"
  using w
proof (induction rule: walk.induct)
  case walk_here
  from sl show ?case by (auto simp: start_le_def)
next
  case (walk_edge v x nbrs t w)
  from walk_edge.hyps(2) have "(v, nbrs) \<in> set g" by (rule map_of_SomeD)
  with nn walk_edge.hyps(3) have w0: "0 \<le> w" by (auto simp: nonneg_weights_def)
  from walk_edge.IH show ?case
  proof
    assume a: "v \<in> visited st \<and> (\<exists>y. map_of (distances st) v = Some (Finite y) \<and> y \<le> x)"
    then obtain y where y: "map_of (distances st) v = Some (Finite y)" "y \<le> x" by blast
    from walk_edge.hyps(2,3) have "(t, w) \<in> set (handled g Loop_head v)"
      by (simp add: handled_def edges_of_def)
    with rel a y(1) obtain y' where y': "map_of (distances st) t = Some (Finite y')" "y' \<le> y + w"
      by (fastforce simp: edges_relaxed_def)
    with y(2) have "y' \<le> x + w" by simp
    with y'(1) show ?thesis by (cases "t \<in> visited st") auto
  next
    assume "\<exists>u y. u \<notin> visited st \<and> map_of (distances st) u = Some (Finite y) \<and> y \<le> x"
    with w0 show ?thesis by force
  qed
qed

lemma popped_is_optimal:
  assumes r: "reach e s st Loop_head" and ne: "priority_queue st \<noteq> []"
    and pop: "heappop (priority_queue st) = ((cd, cn), q)" and nv: "cn \<notin> visited st"
    and rel: "edges_relaxed (graph e) st Loop_head" and nn: "nonneg_weights (graph e)"
    and w: "walk (graph e) s cn z"
  shows "cd \<le> z"
proof -
  from frontier [OF rel nn reach_start_le [OF r] w] nv
  obtain u y where u: "u \<notin> visited st" "map_of (distances st) u = Some (Finite y)" "y \<le> z"
    by blast
  with reach_queue_complete [OF r] have "(y, u) \<in> set (priority_queue st)"
    by (simp add: queue_complete_def)
  from heappop_facts(3) [OF ne pop this] have "cd \<le> y"
    by (auto simp: less_eq_prod_def)
  with u(3) show ?thesis by simp
qed

lemma reach_dijkstra:
  assumes nn: "nonneg_weights (graph e)"
  shows "reach e s st ph \<Longrightarrow> optimal (graph e) s st \<and> edges_relaxed (graph e) st ph"
proof (induction rule: reach.induct)
  case reach_init
  show ?case by (simp add: optimal_def edges_relaxed_def init_state_def)
next
  case (reach_stale st cd cn q)
  then show ?case by (simp add: optimal_def edges_relaxed_def)
next
  case (reach_visit st cd cn q)
  let ?st' = "st\<lparr>priority_queue := q, visited := insert cn (visited st),
     steps := steps st @ [Visit_node cn (distances st) (insert cn (visited st))]\<rparr>"
  from reach_visit.IH have opt: "optimal (graph e) s st"
    and rel: "edges_relaxed (graph e) st Loop_head" by simp_all
  have d: "map_of (distances st) cn = Some (Finite cd)"
    by (rule popped_is_table_entry [OF reach_visit.hyps(1,2,3,4)])
  have "cd \<le> z" if "walk (graph e) s cn z" for z
    by (rule popped_is_optimal [OF reach_visit.hyps(1,2,3,4) rel nn that])
  with opt d have 1: "optimal (graph e) s ?st'"
    by (auto simp: optimal_def)
  have 2: "edges_relaxed (graph e) ?st' (Visiting cn cd)"
    unfolding edges_relaxed_def
  proof (intro ballI)
    fix u p assume u: "u \<in> visited ?st'" and p: "p \<in> set (handled (graph e) (Visiting cn cd) u)"
    from p have "u \<noteq> cn" by (auto simp: handled_def split: if_splits)
    with u p have "u \<in> visited st" "p \<in> set (handled (graph e) Loop_head u)"
      by (simp_all add: handled_def)
    with rel show "case p of (v, w) \<Rightarrow> \<exists>x y. map_of (distances ?st') u = Some (Finite x) \<and>
        map_of (distances ?st') v = Some (Finite y) \<and> y \<le> x + w"
      by (auto simp: edges_relaxed_def)
  qed
  from 1 2 show ?case by simp
next
  case (reach_lookup st cn cd nbrs)
  then show ?case by (simp add: edges_relaxed_def handled_def)
next
  case (reach_relax st cn cd "done" item rest st')
  obtain nb w where item: "item = (nb, w)" by (cases item)
  note step = reach_relax.hyps(2)
  from reach_relax.IH have opt: "optimal (graph e) s st"
    and rel: "edges_relaxed (graph e) st (Relaxing cn cd done (item # rest))" by simp_all
  from reach_phase_inv [OF reach_relax.hyps(1)] have
    ph: "cn \<in> visited st" "map_of (distances st) cn = Some (Finite cd)"
      "map_of (graph e) cn = Some (done @ (nb, w) # rest)"
    by (simp_all add: phase_inv_def item)
  from relax_edge_frame [OF step] have vis: "visited st' = visited st" by simp
  note same = relax_edge_visited_same [OF step]
  note mono = relax_edge_mono [OF step]
  from opt have 1: "optimal (graph e) s st'"
    by (simp add: optimal_def vis same)
  have cn': "map_of (distances st') cn = Some (Finite cd)"
    using same [OF ph(1)] ph(2) by simp
  have w: "walk (graph e) s nb (cd + w)"
  proof -
    from reach_path_sound [OF reach_relax.hyps(1)] ph(2) have "walk (graph e) s cn cd"
      by (simp add: path_sound_def)
    from walk_edge [OF this ph(3), of nb w] show ?thesis by simp
  qed
  have item_ok: "\<exists>y. map_of (distances st') nb = Some (Finite y) \<and> y \<le> cd + w"
    using step [unfolded item]
  proof (cases rule: relax_edge_cases)
    case visited
    from reach_visited_finite [OF reach_relax.hyps(1)] visited(1) obtain y where
      y: "map_of (distances st) nb = Some (Finite y)" by (auto simp: visited_finite_def)
    with opt visited(1) w have "y \<le> cd + w" by (auto simp: optimal_def)
    with y visited(2) show ?thesis by simp
  next
    case (keep old)
    from not_less_Finite [OF keep(3)] keep(2,4) show ?thesis by auto
  next
    case (improve old)
    then show ?thesis by (simp add: update_conv')
  qed
  have 2: "edges_relaxed (graph e) st' (Relaxing cn cd (done @ [item]) rest)"
    unfolding edges_relaxed_def
  proof (intro ballI)
    fix u p
    assume u: "u \<in> visited st'"
      and p: "p \<in> set (handled (graph e) (Relaxing cn cd (done @ [item]) rest) u)"
    obtain v w' where pv: "p = (v, w')" by (cases p)
    from u vis have uv: "u \<in> visited st" by simp
    from p have "p \<in> set (handled (graph e) (Relaxing cn cd done (item # rest)) u) \<or>
        (u = cn \<and> p = item)"
      by (auto simp: handled_def split: if_splits)
    then have "\<exists>x y. map_of (distances st') u = Some (Finite x) \<and>
        map_of (distances st') v = Some (Finite y) \<and> y \<le> x + w'"
    proof
      assume "p \<in> set (handled (graph e) (Relaxing cn cd done (item # rest)) u)"
      with rel uv pv obtain x y where
        xy: "map_of (distances st) u = Some (Finite x)" "map_of (distances st) v = Some (Finite y)"
          "y \<le> x + w'"
        by (fastforce simp: edges_relaxed_def)
      from mono [OF xy(2)] obtain y' where "y' \<le> y" "map_of (distances st') v = Some (Finite y')"
        by blast
      with xy same [OF uv] show ?thesis by auto
    next
      assume "u = cn \<and> p = item"
      with item pv item_ok cn' show ?thesis by auto
    qed
    with pv show "case p of (v, w) \<Rightarrow> \<exists>x y. map_of (distances st') u = Some (Finite x) \<and>
        map_of (distances st') v = Some (Finite y) \<and> y \<le> x + w"
      by simp
  qed
  from 1 2 show ?case by simp
next
  case (reach_done st cn cd "done")
  from reach_phase_inv [OF reach_done.hyps(1)] have "map_of (graph e) cn = Some done"
    by (simp add: phase_inv_def)
  then have "handled (graph e) Loop_head u = handled (graph e) (Relaxing cn cd done []) u" for u
    by (simp add: handled_def edges_of_def)
  with reach_done.IH show ?case by (simp add: edges_relaxed_def)
qed

lemma final_reachable:
  assumes r: "reach e s st Loop_head" and q: "priority_queue st = []"
    and nn: "nonneg_weights (graph e)" and w: "walk (graph e) s v z"
  shows "v \<in> visited st \<and>
    (\<exists>y. map_of (distances st) v = Some (Finite y) \<and> walk (graph e) s v y \<and>
       (\<forall>z'. walk (graph e) s v z' \<longrightarrow> y \<le> z'))"
proof -
  from reach_dijkstra [OF nn r] have opt: "optimal (graph e) s st"
    and rel: "edges_relaxed (graph e) st Loop_head" by simp_all
  have none: "\<not> (\<exists>u y. u \<notin> visited st \<and> map_of (distances st) u = Some (Finite y) \<and> y \<le> z)"
    using reach_queue_complete [OF r] q by (auto simp: queue_complete_def)
  from frontier [OF rel nn reach_start_le [OF r] w] none obtain y where
    v: "v \<in> visited st" and y: "map_of (distances st) v = Some (Finite y)"
    by blast
  from reach_path_sound [OF r] y have "walk (graph e) s v y" by (simp add: path_sound_def)
  moreover from opt v y have "\<forall>z'. walk (graph e) s v z' \<longrightarrow> y \<le> z'"
    by (auto simp: optimal_def)
  ultimately show ?thesis using v y by blast
qed

lemma final_unreachable:
  assumes r: "reach e s st ph" and nw: "\<not> (\<exists>z. walk (graph e) s v z)"
  shows "v \<notin> visited st \<and> (v \<in> keys (graph e) \<longrightarrow> map_of (distances st) v = Some Infinity)"
proof -
  from reach_path_sound [OF r] nw have nf: "map_of (distances st) v \<noteq> Some (Finite y)" for y
    by (auto simp: path_sound_def)
  with reach_visited_finite [OF r] have "v \<notin> visited st"
    by (auto simp: visited_finite_def)
  moreover have "map_of (distances st) v = Some Infinity" if "v \<in> keys (graph e)"
  proof -
    from that reach_keys [OF r] have "v \<in> keys (distances st)" by simp
    then obtain x where x: "map_of (distances st) v = Some x"
      by (cases "map_of (distances st) v") (simp_all add: map_of_None_keys)
    with nf show ?thesis by (cases x) auto
  qed
  ultimately show ?thesis by blast
qed

text \<open>
  C1 as stated fails on graphs with \<^verbatim>\<open>float\<close> weights, none of them negative. On the
  first graph the edges from \<^verbatim>\<open>A\<close> to \<^verbatim>\<open>B\<close> and from \<^verbatim>\<open>B\<close> to \<^verbatim>\<open>C\<close> have the weight
  \<open>2\<^sup>1\<^sup>0\<^sup>2\<^sup>3\<close>, so \<^verbatim>\<open>C\<close> can be reached from \<^verbatim>\<open>A\<close>; the candidate distance of \<^verbatim>\<open>C\<close> is the sum of
  two doubles, which is \<^verbatim>\<open>inf\<close>, and \<^verbatim>\<open>inf < inf\<close> is false: the run returns with \<^verbatim>\<open>C\<close> at
  the sentinel and without a \<^verbatim>\<open>visit_node\<close> event for it. On the second graph the
  weights are \<open>2\<^sup>5\<^sup>3\<close> and \<open>1\<close>; the distance reported for \<^verbatim>\<open>C\<close> is \<open>2\<^sup>5\<^sup>3\<close>, which is below
  the weight \<open>2\<^sup>5\<^sup>3 + 1\<close> of the only path.
\<close>

theorem float_weights_counterexample:
  "map_of overflow_graph ''A'' = Some [(''B'', Py_float (Finite_double 1 1023))]
   \<and> map_of overflow_graph ''B'' = Some [(''C'', Py_float (Finite_double 1 1023))]
   \<and> number_less (Py_int 0) (Py_float (Finite_double 1 1023))
   \<and> run_py insertion_order (init_engine_py overflow_graph) ''A'' =
       Some (Inr ([(''A'', Py_int 0), (''B'', Py_float (Finite_double 1 1023)),
                   (''C'', Py_float Pos_inf)],
                  overflow_trace),
             \<lparr>graph_py = overflow_graph, steps_py = overflow_trace\<rparr>)
   \<and> map_of rounding_graph ''A'' = Some [(''B'', Py_float (Finite_double 1 53))]
   \<and> map_of rounding_graph ''B'' = Some [(''C'', Py_float (Finite_double 1 0))]
   \<and> map_of rounding_graph ''C'' = Some []
   \<and> number_eq (Py_float (Finite_double 1 53)) (Py_int (2 ^ 53))
   \<and> number_eq (Py_float (Finite_double 1 0)) (Py_int 1)
   \<and> run_py insertion_order (init_engine_py rounding_graph) ''A'' =
       Some (Inr ([(''A'', Py_int 0), (''B'', Py_float (Finite_double 1 53)),
                   (''C'', Py_float (Finite_double 1 53))],
                  rounding_trace),
             \<lparr>graph_py = rounding_graph, steps_py = rounding_trace\<rparr>)
   \<and> number_less (Py_float (Finite_double 1 53)) (Py_int (2 ^ 53 + 1))"
  by (intro conjI) code_simp+

text \<open>
  C1, amended: for integer weights. On a graph whose referenced nodes are all keys and
  whose weights are integers, none negative, from a start node that is a key, \<^verbatim>\<open>run\<close>
  returns a distance table and a trace (no exception). The table has the keys of the
  graph. Every node that some path from the start reaches is mapped to a finite
  distance that is the weight of a path from the start and is at most the weight of
  every path from the start to it. Every node that no path reaches is not the node of
  any \<^verbatim>\<open>visit_node\<close> event of the run and, when it is a key of the graph, is still mapped
  to infinity. On the example graph of the module, started at \<^verbatim>\<open>A\<close>, the table is
  \<^verbatim>\<open>{A: 0, B: 3, C: 1, D: 8}\<close>. (Sums of integers are exact and below the sentinel, which
  is what the proof uses; \<open>integer_weights_agree\<close> relates these runs to the runs on
  Python's numbers.)
\<close>

theorem run_computes_shortest_distances:
  "(wf_graph (graph e) \<longrightarrow> nonneg_weights (graph e) \<longrightarrow> start_node \<in> keys (graph e) \<longrightarrow>
     (\<exists>d tr e'. run e start_node = Some (Inr (d, tr), e') \<and>
        keys d = keys (graph e) \<and>
        (\<forall>v z. walk (graph e) start_node v z \<longrightarrow>
           (\<exists>y. map_of d v = Some (Finite y) \<and> walk (graph e) start_node v y \<and>
              (\<forall>z'. walk (graph e) start_node v z' \<longrightarrow> y \<le> z'))) \<and>
        (\<forall>v. \<not> (\<exists>z. walk (graph e) start_node v z) \<longrightarrow>
           v \<notin> set (visit_order (new_events e e')) \<and>
           (v \<in> keys (graph e) \<longrightarrow> map_of d v = Some Infinity)))) \<and>
   (\<exists>tr e'. run (init_engine example_graph) ''A'' =
      Some (Inr ([(''A'', Finite 0), (''B'', Finite 3), (''C'', Finite 1), (''D'', Finite 8)], tr),
            e'))"
proof (intro conjI impI)
  assume wf: "wf_graph (graph e)" and nn: "nonneg_weights (graph e)"
    and s: "start_node \<in> keys (graph e)"
  from run_succeeds [OF wf s] obtain st where
    run: "run e start_node = Some (Inr (distances st, steps st), engine_of st)"
    and r: "reach e start_node st Loop_head" and q: "priority_queue st = []"
    by blast
  have k: "keys (distances st) = keys (graph e)"
    using reach_keys [OF r] s by auto
  have vo: "set (visit_order (new_events e (engine_of st))) = visited st"
    using reach_visits_inv [OF r] by (simp add: visits_inv_def new_events_engine_of)
  have a: "\<exists>y. map_of (distances st) v = Some (Finite y) \<and> walk (graph e) start_node v y \<and>
              (\<forall>z'. walk (graph e) start_node v z' \<longrightarrow> y \<le> z')"
    if "walk (graph e) start_node v z" for v z
    using final_reachable [OF r q nn that] by blast
  have b: "v \<notin> set (visit_order (new_events e (engine_of st))) \<and>
           (v \<in> keys (graph e) \<longrightarrow> map_of (distances st) v = Some Infinity)"
    if "\<not> (\<exists>z. walk (graph e) start_node v z)" for v
    using final_unreachable [OF r that] by (simp add: vo)
  from run k a b show "\<exists>d tr e'. run e start_node = Some (Inr (d, tr), e') \<and>
        keys d = keys (graph e) \<and>
        (\<forall>v z. walk (graph e) start_node v z \<longrightarrow>
           (\<exists>y. map_of d v = Some (Finite y) \<and> walk (graph e) start_node v y \<and>
              (\<forall>z'. walk (graph e) start_node v z' \<longrightarrow> y \<le> z'))) \<and>
        (\<forall>v. \<not> (\<exists>z. walk (graph e) start_node v z) \<longrightarrow>
           v \<notin> set (visit_order (new_events e e')) \<and>
           (v \<in> keys (graph e) \<longrightarrow> map_of d v = Some Infinity))"
    by blast
next
  have "case run (init_engine example_graph) ''A'' of
      Some (Inr (d, tr), e') \<Rightarrow>
        d = [(''A'', Finite 0), (''B'', Finite 3), (''C'', Finite 1), (''D'', Finite 8)]
    | _ \<Rightarrow> False"
    by code_simp
  then show "\<exists>tr e'. run (init_engine example_graph) ''A'' =
      Some (Inr ([(''A'', Finite 0), (''B'', Finite 3), (''C'', Finite 1), (''D'', Finite 8)], tr),
            e')"
    by (auto split: option.splits sum.splits prod.splits)
qed

text \<open>The conditions hold on the disconnected graph, started at \<^verbatim>\<open>A\<close>.\<close>

theorem run_computes_shortest_distances_witness:
  "wf_graph (graph (init_engine disconnected_graph)) \<and>
   nonneg_weights (graph (init_engine disconnected_graph)) \<and>
   ''A'' \<in> keys (graph (init_engine disconnected_graph)) \<and>
   (\<exists>d tr e'. run (init_engine disconnected_graph) ''A'' = Some (Inr (d, tr), e') \<and>
      keys d = keys (graph (init_engine disconnected_graph)) \<and>
      (\<forall>v z. walk (graph (init_engine disconnected_graph)) ''A'' v z \<longrightarrow>
         (\<exists>y. map_of d v = Some (Finite y) \<and>
            walk (graph (init_engine disconnected_graph)) ''A'' v y \<and>
            (\<forall>z'. walk (graph (init_engine disconnected_graph)) ''A'' v z' \<longrightarrow> y \<le> z'))) \<and>
      (\<forall>v. \<not> (\<exists>z. walk (graph (init_engine disconnected_graph)) ''A'' v z) \<longrightarrow>
         v \<notin> set (visit_order (new_events (init_engine disconnected_graph) e')) \<and>
         (v \<in> keys (graph (init_engine disconnected_graph)) \<longrightarrow> map_of d v = Some Infinity)))"
proof -
  let ?e = "init_engine disconnected_graph"
  have wf: "wf_graph (graph ?e)"
    by (simp add: wf_graph_def init_engine_def disconnected_graph_def keys_def)
  have nn: "nonneg_weights (graph ?e)"
    by (simp add: nonneg_weights_def init_engine_def disconnected_graph_def)
  have s: "''A'' \<in> keys (graph ?e)"
    by (simp add: init_engine_def disconnected_graph_def keys_def)
  note t = run_computes_shortest_distances [of ?e "''A''", THEN conjunct1, rule_format, OF wf nn s]
  show ?thesis
    by (intro conjI) (rule wf, rule nn, rule s, rule t)
qed

section \<open>Runs on Python's numbers\<close>

lemma relax_edge_py_frame:
  assumes "relax_edge_py cn cd item st = Inr st'"
  shows "graph_py st' = graph_py st" and "visited_py st' = visited_py st"
    and "length (priority_queue_py st') \<le> Suc (length (priority_queue_py st))"
    and "\<exists>evs. steps_py st' = steps_py st @ evs"
  using assms
  by (auto simp: relax_edge_py_def heappush_py_def Let_def
      split: prod.splits if_splits option.splits)

lemma relax_edges_py_frame:
  assumes "relax_edges_py cn cd nbrs st = Inr st'"
  shows "graph_py st' = graph_py st \<and> visited_py st' = visited_py st \<and>
    length (priority_queue_py st') \<le> length (priority_queue_py st) + length nbrs \<and>
    (\<exists>evs. steps_py st' = steps_py st @ evs)"
  using assms
proof (induction nbrs arbitrary: st)
  case Nil
  then show ?case by simp
next
  case (Cons item rest)
  from Cons.prems obtain st1 where
    a: "relax_edge_py cn cd item st = Inr st1" and b: "relax_edges_py cn cd rest st1 = Inr st'"
    by (auto split: sum.splits)
  from relax_edge_py_frame [OF a] Cons.IH [OF b] show ?case
    by auto
qed

lemma least_pair_in: "least_pair x ys \<in> set (x # ys)"
  by (induction ys arbitrary: x) (auto split: if_splits)

lemma heappop_py_in:
  assumes "q \<noteq> []" and "heappop_py q = (x, q')"
  shows "x \<in> set q" and "q' = remove1 x q" and "Suc (length q') = length q"
proof -
  from assms(2) have x: "x = least_pair (hd q) (tl q)" and q': "q' = remove1 x q"
    by (auto simp: heappop_py_def Let_def)
  from least_pair_in [of "hd q" "tl q"] assms(1) x show "x \<in> set q"
    by simp
  then show "Suc (length q') = length q"
    using assms(1) q' by (simp add: length_remove1 Suc_pred)
  show "q' = remove1 x q" by (rule q')
qed

lemma unvisited_work_py_mono: "unvisited_work_py (insert u V) g \<le> unvisited_work_py V g"
  by (induction g) (auto simp: unvisited_work_py_def)

lemma unvisited_work_py_insert:
  "(u, nbrs) \<in> set g \<Longrightarrow> u \<notin> V \<Longrightarrow>
     unvisited_work_py (insert u V) g + Suc (length nbrs) \<le> unvisited_work_py V g"
proof (induction g)
  case Nil
  then show ?case by simp
next
  case (Cons p g)
  show ?case
  proof (cases "p = (u, nbrs)")
    case True
    have "unvisited_work_py (insert u V) g \<le> unvisited_work_py V g"
      by (rule unvisited_work_py_mono)
    with True Cons.prems show ?thesis
      by (simp add: unvisited_work_py_def)
  next
    case False
    with Cons have "unvisited_work_py (insert u V) g + Suc (length nbrs) \<le> unvisited_work_py V g"
      by simp
    then show ?thesis
      by (cases p) (auto simp: unvisited_work_py_def)
  qed
qed

lemma iteration_py_cases [consumes 2, case_names stale raise visit]:
  assumes "priority_queue_py st \<noteq> []"
    and "heappop_py (priority_queue_py st) = ((cd, cn), q)"
  obtains
    "cn \<in> set (visited_py st)" "iteration_py enum st = Inr (st\<lparr>priority_queue_py := q\<rparr>)"
  | "cn \<notin> set (visited_py st)" "map_of (graph_py st) cn = None"
    "iteration_py enum st =
       Inl (KeyError_py cn,
            engine_of_py (st\<lparr>priority_queue_py := q, visited_py := visited_py st @ [cn],
               steps_py := steps_py st @
                 [Visit_node_py cn (distances_py st) (enum (visited_py st @ [cn]))]\<rparr>))"
  | nbrs where "cn \<notin> set (visited_py st)" "map_of (graph_py st) cn = Some nbrs"
    "iteration_py enum st =
       relax_edges_py cn cd nbrs
         (st\<lparr>priority_queue_py := q, visited_py := visited_py st @ [cn],
             steps_py := steps_py st @
               [Visit_node_py cn (distances_py st) (enum (visited_py st @ [cn]))]\<rparr>)"
  using assms(2) by (cases "map_of (graph_py st) cn") (auto simp: iteration_py_def Let_def)

lemma iteration_py_pending:
  assumes "priority_queue_py st \<noteq> []" and "iteration_py enum st = Inr st'"
  shows "pending_py st' < pending_py st"
proof -
  obtain cd cn q where p: "heappop_py (priority_queue_py st) = ((cd, cn), q)"
    by (metis surj_pair)
  note h = heappop_py_in [OF assms(1) p]
  from assms(1) p show ?thesis
  proof (cases rule: iteration_py_cases [where enum = enum])
    case stale
    with assms(2) h(3) show ?thesis by (auto simp: pending_py_def)
  next
    case raise
    with assms(2) show ?thesis by simp
  next
    case (visit nbrs)
    from relax_edges_py_frame [OF visit(3) [symmetric, unfolded assms(2)]] have
      f: "graph_py st' = graph_py st" "visited_py st' = visited_py st @ [cn]"
         "length (priority_queue_py st') \<le> length q + length nbrs"
      by simp_all
    from visit(2) have "(cn, nbrs) \<in> set (graph_py st)" by (rule map_of_SomeD)
    from unvisited_work_py_insert [OF this visit(1)]
    have "unvisited_work_py (insert cn (set (visited_py st))) (graph_py st) + Suc (length nbrs)
            \<le> unvisited_work_py (set (visited_py st)) (graph_py st)" .
    with f h(3) show ?thesis by (simp add: pending_py_def)
  qed
qed

lemma main_loop_py_returns: "\<exists>r. main_loop_py enum st = Some r"
proof (induction "pending_py st" arbitrary: st rule: less_induct)
  case less
  show ?case
  proof (cases "priority_queue_py st = []")
    case True
    then show ?thesis by (subst main_loop_py.simps) simp
  next
    case False
    show ?thesis
    proof (cases "iteration_py enum st")
      case (Inl err)
      with False show ?thesis by (subst main_loop_py.simps) simp
    next
      case (Inr st')
      from less [OF iteration_py_pending [OF False Inr]]
      obtain r where "main_loop_py enum st' = Some r" ..
      with False Inr show ?thesis by (subst main_loop_py.simps) simp
    qed
  qed
qed

lemma run_py_total: "\<exists>r. run_py enum e s = Some r"
proof -
  obtain r where "main_loop_py enum (init_state_py e s) = Some r"
    using main_loop_py_returns by blast
  then show ?thesis
    by (cases r) (auto simp: run_py_def split: prod.splits)
qed
lemma relax_edge_py_map_steps:
  assumes f: "\<And>a b c d. f (Relax_edge_py a b c d) = Relax_edge_py a b c d"
  shows "relax_edge_py cn cd item (st\<lparr>steps_py := map f (steps_py st)\<rparr>) =
    map_steps f (relax_edge_py cn cd item st)"
  by (auto simp: relax_edge_py_def map_steps_def engine_of_py_def Let_def f
      split: prod.splits option.splits)

lemma relax_edges_py_map_steps:
  assumes f: "\<And>a b c d. f (Relax_edge_py a b c d) = Relax_edge_py a b c d"
  shows "relax_edges_py cn cd nbrs (st\<lparr>steps_py := map f (steps_py st)\<rparr>) =
    map_steps f (relax_edges_py cn cd nbrs st)"
proof (induction nbrs arbitrary: st)
  case Nil
  show ?case by (simp add: map_steps_def)
next
  case (Cons item rest)
  show ?case
  proof (cases "relax_edge_py cn cd item st")
    case (Inl err)
    then show ?thesis
      by (simp add: relax_edge_py_map_steps [of f, OF f]) (simp add: map_steps_def split: prod.splits)
  next
    case (Inr st1)
    then show ?thesis
      by (simp add: relax_edge_py_map_steps [of f, OF f])
        (simp add: map_steps_def Cons.IH [unfolded map_steps_def])
  qed
qed

lemma iteration_py_map_steps:
  "iteration_py enum (st\<lparr>steps_py := map (reorder enum) (steps_py st)\<rparr>) =
     map_steps (reorder enum) (iteration_py insertion_order st)"
proof -
  obtain cd cn q where p: "heappop_py (priority_queue_py st) = ((cd, cn), q)"
    by (metis surj_pair)
  let ?st1 = "st\<lparr>priority_queue_py := q, visited_py := visited_py st @ [cn],
      steps_py := steps_py st @ [Visit_node_py cn (distances_py st) (visited_py st @ [cn])]\<rparr>"
  have r: "relax_edges_py cn cd nbrs
      (st\<lparr>steps_py := map (reorder enum) (steps_py st), priority_queue_py := q,
          visited_py := visited_py st @ [cn],
          steps_py := map (reorder enum) (steps_py st) @
            [Visit_node_py cn (distances_py st) (enum (visited_py st @ [cn]))]\<rparr>) =
      map_steps (reorder enum) (relax_edges_py cn cd nbrs ?st1)" for nbrs
    using relax_edges_py_map_steps [of "reorder enum" cn cd nbrs ?st1] by simp
  show ?thesis
  proof (cases "map_of (graph_py st) cn")
    case None
    with p show ?thesis
      by (simp add: iteration_py_def Let_def map_steps_def engine_of_py_def insertion_order_def)
  next
    case (Some nbrs)
    with p r [of nbrs] show ?thesis
      by (simp add: iteration_py_def Let_def insertion_order_def) (simp add: map_steps_def)
  qed
qed

lemma main_loop_py_map_steps:
  "main_loop_py enum (st\<lparr>steps_py := map (reorder enum) (steps_py st)\<rparr>) =
     map_option (map_steps (reorder enum)) (main_loop_py insertion_order st)"
proof (induction "pending_py st" arbitrary: st rule: less_induct)
  case less
  let ?st = "st\<lparr>steps_py := map (reorder enum) (steps_py st)\<rparr>"
  show ?case
  proof (cases "priority_queue_py st = []")
    case True
    then show ?thesis
      by (simp add: main_loop_py.simps [of enum ?st] main_loop_py.simps [of _ st] map_steps_def)
  next
    case False
    show ?thesis
    proof (cases "iteration_py insertion_order st")
      case (Inl err)
      with False show ?thesis
        by (simp add: main_loop_py.simps [of enum ?st] main_loop_py.simps [of _ st]
            iteration_py_map_steps)
          (simp add: map_steps_def split: prod.splits)
    next
      case (Inr st')
      from less [OF iteration_py_pending [OF False Inr]] False Inr show ?thesis
        by (simp add: main_loop_py.simps [of enum ?st] main_loop_py.simps [of _ st]
            iteration_py_map_steps)
          (simp add: map_steps_def)
    qed
  qed
qed

lemma run_py_reordered:
  "run_py enum (init_engine_py g) s =
     map_option (reordered enum) (run_py insertion_order (init_engine_py g) s)"
proof -
  let ?st = "init_state_py (init_engine_py g) s"
  have "?st = ?st\<lparr>steps_py := map (reorder enum) (steps_py ?st)\<rparr>"
    by (simp add: init_state_py_def init_engine_py_def)
  then have "main_loop_py enum ?st =
      map_option (map_steps (reorder enum)) (main_loop_py insertion_order ?st)"
    using main_loop_py_map_steps [of enum ?st] by simp
  then show ?thesis
    by (auto simp: run_py_def reordered_def map_steps_def engine_of_py_def
        split: option.splits sum.splits prod.splits)
qed

lemma sorted_nodes_reorder:
  assumes "enumeration enum"
  shows "sorted_nodes (reorder enum ev) = sorted_nodes ev"
proof (cases ev)
  case (Visit_node_py n snap h)
  have "mset (sort h) = mset (enum h)"
    using assms by (simp add: enumeration_def)
  then have "sort (enum h) = sort h"
    by (rule properties_for_sort) simp
  with Visit_node_py show ?thesis by simp
next
  case (Relax_edge_py f t nd snap)
  then show ?thesis by simp
qed
lemma relax_edge_py_steps: "\<exists>evs. steps_after (relax_edge_py cn cd item st) = steps_py st @ evs"
  by (auto simp: relax_edge_py_def steps_after_def engine_of_py_def Let_def
      split: prod.splits option.splits)

lemma relax_edges_py_steps: "\<exists>evs. steps_after (relax_edges_py cn cd nbrs st) = steps_py st @ evs"
proof (induction nbrs arbitrary: st)
  case Nil
  show ?case by (simp add: steps_after_def)
next
  case (Cons item rest)
  from relax_edge_py_steps [of cn cd item st] obtain evs where
    e: "steps_after (relax_edge_py cn cd item st) = steps_py st @ evs" ..
  show ?case
  proof (cases "relax_edge_py cn cd item st")
    case (Inl err)
    with e show ?thesis by simp
  next
    case (Inr st1)
    from Cons.IH [of st1] obtain evs' where
      "steps_after (relax_edges_py cn cd rest st1) = steps_py st1 @ evs'" ..
    with Inr e show ?thesis by (simp add: steps_after_def)
  qed
qed

lemma iteration_py_next_event:
  assumes "priority_queue_py st \<noteq> []"
    and "heappop_py (priority_queue_py st) = ((cd, cn), q)"
    and "cn \<notin> set (visited_py st)"
  shows "take (Suc (length (steps_py st))) (steps_after (iteration_py enum st)) =
    steps_py st @ [Visit_node_py cn (distances_py st) (enum (visited_py st @ [cn]))]"
  using assms(1,2)
proof (cases rule: iteration_py_cases [where enum = enum])
  case stale
  with assms(3) show ?thesis by simp
next
  case raise
  then show ?thesis by (simp add: steps_after_def engine_of_py_def)
next
  case (visit nbrs)
  let ?st1 = "st\<lparr>priority_queue_py := q, visited_py := visited_py st @ [cn],
      steps_py := steps_py st @
        [Visit_node_py cn (distances_py st) (enum (visited_py st @ [cn]))]\<rparr>"
  from relax_edges_py_steps [of cn cd nbrs ?st1] obtain evs where
    "steps_after (relax_edges_py cn cd nbrs ?st1) = steps_py ?st1 @ evs" ..
  with visit(3) show ?thesis by simp
qed

lemma scaled:
  assumes "e \<le> e1"
  shows "of_int m * 2 powi e1 = (of_int (m * 2 ^ nat (e1 - e)) :: real) * 2 powi e"
proof -
  have "(2::real) powi e1 = 2 powi (e + int (nat (e1 - e)))"
    using assms by simp
  also have "\<dots> = 2 powi e * 2 powi int (nat (e1 - e))"
    by (rule power_int_add) simp
  also have "\<dots> = 2 powi e * 2 ^ nat (e1 - e)"
    by (simp only: power_int_of_nat)
  finally show ?thesis by simp
qed

lemma finite_double_less:
  "double_less (Finite_double m1 e1) (Finite_double m2 e2) \<longleftrightarrow>
     of_int m1 * 2 powi e1 < (of_int m2 * 2 powi e2 :: real)"
proof -
  let ?e = "min e1 e2"
  have p: "0 < (2::real) powi ?e" by simp
  have "of_int m1 * 2 powi e1 < (of_int m2 * 2 powi e2 :: real) \<longleftrightarrow>
      (of_int (m1 * 2 ^ nat (e1 - ?e)) :: real) * 2 powi ?e <
        of_int (m2 * 2 ^ nat (e2 - ?e)) * 2 powi ?e"
    by (simp only: scaled [of ?e e1 m1] scaled [of ?e e2 m2] min.cobounded1 min.cobounded2)
  also have "\<dots> \<longleftrightarrow> (of_int (m1 * 2 ^ nat (e1 - ?e)) :: real) < of_int (m2 * 2 ^ nat (e2 - ?e))"
    using p by (simp only: mult_less_cancel_right_pos)
  also have "\<dots> \<longleftrightarrow> m1 * 2 ^ nat (e1 - ?e) < m2 * 2 ^ nat (e2 - ?e)"
    by (simp only: of_int_less_iff)
  finally show ?thesis by simp
qed

lemma finite_double_eq:
  "double_eq (Finite_double m1 e1) (Finite_double m2 e2) \<longleftrightarrow>
     of_int m1 * 2 powi e1 = (of_int m2 * 2 powi e2 :: real)"
proof -
  let ?e = "min e1 e2"
  have p: "(2::real) powi ?e \<noteq> 0" by simp
  have "of_int m1 * 2 powi e1 = (of_int m2 * 2 powi e2 :: real) \<longleftrightarrow>
      (of_int (m1 * 2 ^ nat (e1 - ?e)) :: real) * 2 powi ?e =
        of_int (m2 * 2 ^ nat (e2 - ?e)) * 2 powi ?e"
    by (simp only: scaled [of ?e e1 m1] scaled [of ?e e2 m2] min.cobounded1 min.cobounded2)
  also have "\<dots> \<longleftrightarrow> (of_int (m1 * 2 ^ nat (e1 - ?e)) :: real) = of_int (m2 * 2 ^ nat (e2 - ?e))"
    using p by (simp only: mult_cancel_right) simp
  also have "\<dots> \<longleftrightarrow> m1 * 2 ^ nat (e1 - ?e) = m2 * 2 ^ nat (e2 - ?e)"
    by (simp only: of_int_eq_iff)
  finally show ?thesis by simp
qed

lemma double_less_key:
  assumes "d1 \<noteq> Not_a_number" and "d2 \<noteq> Not_a_number"
  shows "double_less d1 d2 \<longleftrightarrow> double_key d1 < double_key d2"
  using assms
  by (cases d1; cases d2)
    (simp_all add: double_key_def finite_double_less less_prod_def del: double_less.simps(1))

lemma double_eq_key:
  assumes "d1 \<noteq> Not_a_number" and "d2 \<noteq> Not_a_number"
  shows "double_eq d1 d2 \<longleftrightarrow> double_key d1 = double_key d2"
  using assms
  by (cases d1; cases d2)
    (simp_all add: double_key_def finite_double_eq del: double_eq.simps(1))

lemma pair_less_key:
  assumes "exact (fst x) \<noteq> Not_a_number" and "exact (fst y) \<noteq> Not_a_number"
  shows "pair_less x y \<longleftrightarrow> pair_key x < pair_key y"
proof -
  let ?a = "double_key (exact (fst x))" and ?b = "double_key (exact (fst y))"
  have "pair_key x < pair_key y \<longleftrightarrow> ?a < ?b \<or> (?a \<le> ?b \<and> snd x < snd y)"
    by (simp only: pair_key_def less_prod_simp)
  also have "\<dots> \<longleftrightarrow> (if ?a = ?b then snd x < snd y else ?a < ?b)"
    by (cases "?a = ?b") auto
  finally show ?thesis
    by (simp only: pair_less_def number_eq_def number_less_def
        double_less_key [OF assms] double_eq_key [OF assms])
qed

lemma least_pair_least:
  assumes "\<forall>y \<in> set (x # ys). exact (fst y) \<noteq> Not_a_number"
  shows "\<forall>y \<in> set (x # ys). pair_key (least_pair x ys) \<le> pair_key y"
  using assms
proof (induction ys arbitrary: x)
  case Nil
  then show ?case by simp
next
  case (Cons z ys)
  let ?m = "if pair_less z x then z else x"
  from Cons.prems have "\<forall>y \<in> set (?m # ys). exact (fst y) \<noteq> Not_a_number"
    by auto
  from Cons.IH [OF this] have ih: "\<forall>y \<in> set (?m # ys). pair_key (least_pair ?m ys) \<le> pair_key y" .
  then have m: "pair_key (least_pair ?m ys) \<le> pair_key ?m"
    by simp
  from Cons.prems have "pair_less z x \<longleftrightarrow> pair_key z < pair_key x"
    by (intro pair_less_key) simp_all
  then have "pair_key ?m \<le> pair_key x" "pair_key ?m \<le> pair_key z"
    by auto
  with m have "pair_key (least_pair ?m ys) \<le> pair_key x" "pair_key (least_pair ?m ys) \<le> pair_key z"
    by (blast intro: order_trans)+
  with ih show ?case by auto
qed

lemma relax_edge_py_queue_numbers:
  assumes "relax_edge_py cn cd item st = Inr st'" and "queue_numbers st"
  shows "queue_numbers st'"
proof -
  have "exact x \<noteq> Not_a_number" if "number_less x y" for x y
    using that by (auto simp: number_less_def)
  with assms(1) have
    "\<forall>(d, n) \<in> set (priority_queue_py st') - set (priority_queue_py st). exact d \<noteq> Not_a_number"
    by (auto simp: relax_edge_py_def heappush_py_def Let_def
        split: prod.splits if_splits option.splits)
  with assms(2) show ?thesis
    unfolding queue_numbers_def by blast
qed

lemma relax_edges_py_queue_numbers:
  assumes "relax_edges_py cn cd nbrs st = Inr st'" and "queue_numbers st"
  shows "queue_numbers st'"
  using assms
proof (induction nbrs arbitrary: st)
  case Nil
  then show ?case by simp
next
  case (Cons item rest)
  from Cons.prems(1) obtain st1 where
    a: "relax_edge_py cn cd item st = Inr st1" and b: "relax_edges_py cn cd rest st1 = Inr st'"
    by (auto split: sum.splits)
  from Cons.IH [OF b relax_edge_py_queue_numbers [OF a Cons.prems(2)]] show ?case .
qed

lemma loop_reach_py_queue_numbers:
  assumes "loop_reach_py enum (init_state_py e s) st"
  shows "queue_numbers st"
  using assms
proof (induction rule: loop_reach_py.induct)
  case loop_start_py
  show ?case by (simp add: queue_numbers_def init_state_py_def exact_def)
next
  case (loop_pass_py st st')
  obtain cd cn q where p: "heappop_py (priority_queue_py st) = ((cd, cn), q)"
    by (metis surj_pair)
  from heappop_py_in(2) [OF loop_pass_py(2) p] have "set q \<subseteq> set (priority_queue_py st)"
    by (simp add: set_remove1_subset)
  with loop_pass_py(4) have q: "queue_numbers (st\<lparr>priority_queue_py := q\<rparr>)"
    and q': "queue_numbers (st\<lparr>priority_queue_py := q, visited_py := v, steps_py := t\<rparr>)"
    for v t
    by (auto simp: queue_numbers_def)
  from loop_pass_py(2) p show ?case
  proof (cases rule: iteration_py_cases [where enum = enum])
    case stale
    with loop_pass_py(3) q show ?thesis by simp
  next
    case raise
    with loop_pass_py(3) show ?thesis by simp
  next
    case (visit nbrs)
    from visit(3) loop_pass_py(3) relax_edges_py_queue_numbers [OF _ q'] show ?thesis
      by simp
  qed
qed

lemma popped_pair_least:
  assumes "loop_reach_py enum (init_state_py e s) st" and "priority_queue_py st \<noteq> []"
    and "heappop_py (priority_queue_py st) = ((cd, cn), q)"
    and "(d, n) \<in> set (priority_queue_py st)"
  shows "number_less cd d \<or> (number_eq cd d \<and> cn \<le> n)"
proof -
  from loop_reach_py_queue_numbers [OF assms(1)] have
    nn: "\<forall>y \<in> set (priority_queue_py st). exact (fst y) \<noteq> Not_a_number"
    by (auto simp: queue_numbers_def)
  from assms(2) have hd: "hd (priority_queue_py st) # tl (priority_queue_py st) = priority_queue_py st"
    by simp
  from assms(3) have x: "(cd, cn) = least_pair (hd (priority_queue_py st)) (tl (priority_queue_py st))"
    by (simp add: heappop_py_def Let_def)
  from least_pair_least [of "hd (priority_queue_py st)" "tl (priority_queue_py st)"] nn assms(4)
  have le: "pair_key (cd, cn) \<le> pair_key (d, n)"
    unfolding hd x by blast
  from heappop_py_in(1) [OF assms(2,3)] nn have a: "exact cd \<noteq> Not_a_number"
    by auto
  from nn assms(4) have b: "exact d \<noteq> Not_a_number"
    by auto
  let ?a = "double_key (exact cd)" and ?b = "double_key (exact d)"
  from le have "?a < ?b \<or> (?a \<le> ?b \<and> cn \<le> n)"
    by (simp only: pair_key_def less_eq_prod_simp fst_conv snd_conv)
  then have "?a < ?b \<or> (?a = ?b \<and> cn \<le> n)"
    by (auto simp: less_le)
  then show ?thesis
    by (simp only: number_less_def number_eq_def double_less_key [OF a b] double_eq_key [OF a b])
qed
lemma relax_edges_py_graph:
  "case relax_edges_py cn cd nbrs st of
     Inl (err, e) \<Rightarrow> graph_py e = graph_py st
   | Inr st' \<Rightarrow> graph_py st' = graph_py st"
proof (induction nbrs arbitrary: st)
  case Nil
  show ?case by simp
next
  case (Cons item rest)
  show ?case
  proof (cases "relax_edge_py cn cd item st")
    case (Inl x)
    then show ?thesis
      by (auto simp: relax_edge_py_def engine_of_py_def Let_def
          split: prod.splits if_splits option.splits)
  next
    case (Inr st1)
    with relax_edge_py_frame(1) [OF Inr] Cons.IH [where st = st1] show ?thesis
      by (simp split: sum.splits prod.splits)
  qed
qed

lemma iteration_py_graph:
  assumes "priority_queue_py st \<noteq> []"
  shows "case iteration_py enum st of
     Inl (err, e) \<Rightarrow> graph_py e = graph_py st
   | Inr st' \<Rightarrow> graph_py st' = graph_py st"
proof -
  obtain cd cn q where p: "heappop_py (priority_queue_py st) = ((cd, cn), q)"
    by (metis surj_pair)
  from assms p show ?thesis
  proof (cases rule: iteration_py_cases [where enum = enum])
    case stale
    then show ?thesis by simp
  next
    case raise
    then show ?thesis by (simp add: engine_of_py_def)
  next
    case (visit nbrs)
    let ?st1 = "st\<lparr>priority_queue_py := q, visited_py := visited_py st @ [cn],
        steps_py := steps_py st @
          [Visit_node_py cn (distances_py st) (enum (visited_py st @ [cn]))]\<rparr>"
    from relax_edges_py_graph [where cn = cn and cd = cd and nbrs = nbrs and st = ?st1] visit(3)
    show ?thesis
      by (auto split: sum.splits prod.splits)
  qed
qed

lemma main_loop_py_graph:
  assumes "main_loop_py enum st = Some r"
  shows "case r of Inl (err, e) \<Rightarrow> graph_py e = graph_py st | Inr st' \<Rightarrow> graph_py st' = graph_py st"
  using assms
proof (induction "pending_py st" arbitrary: st rule: less_induct)
  case less
  show ?case
  proof (cases "priority_queue_py st = []")
    case True
    with less.prems show ?thesis
      by (auto simp: main_loop_py.simps [of enum st])
  next
    case False
    show ?thesis
    proof (cases "iteration_py enum st")
      case (Inl err)
      with False less.prems iteration_py_graph [OF False, where enum = enum] show ?thesis
        by (simp add: main_loop_py.simps [of enum st])
    next
      case (Inr st')
      with False less.prems have "main_loop_py enum st' = Some r"
        by (simp add: main_loop_py.simps [of enum st])
      from less.hyps [OF iteration_py_pending [OF False Inr] this]
        iteration_py_graph [OF False, where enum = enum] Inr
      show ?thesis by (simp split: sum.splits prod.splits)
    qed
  qed
qed

lemma run_py_graph:
  assumes "run_py enum e s = Some (r, e')"
  shows "graph_py e' = graph_py e"
proof -
  from assms obtain x where m: "main_loop_py enum (init_state_py e s) = Some x"
    by (auto simp: run_py_def split: option.splits)
  from main_loop_py_graph [OF m] assms m show ?thesis
    by (auto simp: run_py_def init_state_py_def engine_of_py_def split: sum.splits prod.splits)
qed

lemma run_py_trace:
  assumes "run_py enum e s = Some (Inr (d, tr), e')"
  shows "tr = steps_py e'"
  using assms
  by (auto simp: run_py_def engine_of_py_def split: option.splits sum.splits prod.splits)

lemma relax_edge_py_cases [consumes 1, case_names keep improve]:
  assumes "relax_edge_py cn cd (nb, w) st = Inr st'"
  obtains "st' = st"
  | new old where "nb \<notin> set (visited_py st)" "number_add cd w = Some new"
      "map_of (distances_py st) nb = Some old" "number_less new old"
      "st' = st\<lparr>distances_py := AList.update nb new (distances_py st),
                priority_queue_py := priority_queue_py st @ [(new, nb)],
                steps_py := steps_py st @
                  [Relax_edge_py cn nb new (AList.update nb new (distances_py st))]\<rparr>"
  using assms
  by (auto simp: relax_edge_py_def heappush_py_def Let_def split: if_splits option.splits)

lemma number_less_key:
  assumes "number_less x y"
  shows "exact x \<noteq> Not_a_number" and "exact y \<noteq> Not_a_number"
    and "double_key (exact x) < double_key (exact y)"
proof -
  from assms show a: "exact x \<noteq> Not_a_number" and b: "exact y \<noteq> Not_a_number"
    by (auto simp: number_less_def)
  from assms show "double_key (exact x) < double_key (exact y)"
    by (simp add: number_less_def double_less_key [OF a b])
qed

lemma relax_edge_py_queue_distinct:
  assumes "relax_edge_py cn cd item st = Inr st'" and "queue_distinct st"
  shows "queue_distinct st'"
proof -
  obtain nb w where item: "item = (nb, w)" by (cases item)
  from assms(1) [unfolded item] show ?thesis
  proof (cases rule: relax_edge_py_cases)
    case keep
    with assms(2) show ?thesis by simp
  next
    case (improve new old)
    note k = number_less_key [OF improve(4)]
    let ?t = "AList.update nb new (distances_py st)"
    have above: "double_key (exact new) < double_key (exact d)"
      if "(d, nb) \<in> set (priority_queue_py st)" for d
    proof -
      from assms(2) that improve(3) have "double_key (exact old) \<le> double_key (exact d)"
        by (auto simp: queue_distinct_def)
      with k(3) show ?thesis by simp
    qed
    have 1: "\<exists>old'. map_of ?t n = Some old' \<and> exact old' \<noteq> Not_a_number \<and>
        double_key (exact old') \<le> double_key (exact d)"
      if "(d, n) \<in> set (priority_queue_py st @ [(new, nb)])" for d n
    proof (cases "n = nb")
      case True
      from that above have "double_key (exact new) \<le> double_key (exact d)"
        by (auto simp: True less_imp_le)
      with k(1) True show ?thesis by (simp add: update_conv')
    next
      case False
      with that have "(d, n) \<in> set (priority_queue_py st)" by simp
      with assms(2) False show ?thesis
        by (auto simp: queue_distinct_def update_conv')
    qed
    have "pair_key (new, nb) \<notin> pair_key ` set (priority_queue_py st)"
    proof
      assume "pair_key (new, nb) \<in> pair_key ` set (priority_queue_py st)"
      then obtain d n where m: "(d, n) \<in> set (priority_queue_py st)"
        and e: "pair_key (new, nb) = pair_key (d, n)"
        by auto
      from e have "n = nb" "double_key (exact new) = double_key (exact d)"
        by (simp_all add: pair_key_def)
      with above [of d] m show False by simp
    qed
    with assms(2) have 2: "distinct (map pair_key (priority_queue_py st @ [(new, nb)]))"
      by (simp add: queue_distinct_def)
    from 1 2 show ?thesis
      unfolding queue_distinct_def improve(5) by auto
  qed
qed

lemma relax_edges_py_queue_distinct:
  assumes "relax_edges_py cn cd nbrs st = Inr st'" and "queue_distinct st"
  shows "queue_distinct st'"
  using assms
proof (induction nbrs arbitrary: st)
  case Nil
  then show ?case by simp
next
  case (Cons item rest)
  from Cons.prems(1) obtain st1 where
    a: "relax_edge_py cn cd item st = Inr st1" and b: "relax_edges_py cn cd rest st1 = Inr st'"
    by (auto split: sum.splits)
  from Cons.IH [OF b relax_edge_py_queue_distinct [OF a Cons.prems(2)]] show ?case .
qed

lemma distinct_map_remove1:
  assumes "distinct (map f xs)"
  shows "distinct (map f (remove1 x xs))"
proof -
  from assms have "distinct xs" by (rule distinct_map [THEN iffD1, THEN conjunct1])
  then have "remove1 x xs = filter (\<lambda>y. y \<noteq> x) xs"
    by (simp add: distinct_remove1_removeAll removeAll_filter_not_eq) (metis)
  with assms show ?thesis by (simp add: distinct_map_filter)
qed

lemma loop_reach_py_queue_distinct:
  assumes "loop_reach_py enum (init_state_py e s) st"
  shows "queue_distinct st"
  using assms
proof (induction rule: loop_reach_py.induct)
  case loop_start_py
  show ?case
    by (simp add: queue_distinct_def init_state_py_def update_conv' exact_def)
next
  case (loop_pass_py st st')
  obtain cd cn q where p: "heappop_py (priority_queue_py st) = ((cd, cn), q)"
    by (metis surj_pair)
  note h = heappop_py_in(2) [OF loop_pass_py(2) p]
  from h have "set q \<subseteq> set (priority_queue_py st)"
    by (simp add: set_remove1_subset)
  moreover from h loop_pass_py(4) have "distinct (map pair_key q)"
    by (simp add: queue_distinct_def distinct_map_remove1)
  ultimately have q: "queue_distinct (st\<lparr>priority_queue_py := q\<rparr>)"
    and q': "queue_distinct (st\<lparr>priority_queue_py := q, visited_py := v, steps_py := t\<rparr>)"
    for v t
    using loop_pass_py(4) by (auto simp: queue_distinct_def)
  from loop_pass_py(2) p show ?case
  proof (cases rule: iteration_py_cases [where enum = enum])
    case stale
    with loop_pass_py(3) q show ?thesis by simp
  next
    case raise
    with loop_pass_py(3) show ?thesis by simp
  next
    case (visit nbrs)
    from visit(3) loop_pass_py(3) relax_edges_py_queue_distinct [OF _ q'] show ?thesis
      by simp
  qed
qed

lemma popped_pair_strict:
  assumes "loop_reach_py enum (init_state_py e s) st" and "priority_queue_py st \<noteq> []"
    and "heappop_py (priority_queue_py st) = ((cd, cn), q)"
    and "(d, n) \<in> set q"
  shows "number_less cd d \<or> (number_eq cd d \<and> cn < n)"
proof -
  note h = heappop_py_in [OF assms(2,3)]
  from loop_reach_py_queue_distinct [OF assms(1)] have
    dk: "distinct (map pair_key (priority_queue_py st))"
    by (simp add: queue_distinct_def)
  then have dq: "distinct (priority_queue_py st)"
    by (rule distinct_map [THEN iffD1, THEN conjunct1])
  from assms(4) h(2) dq have m: "(d, n) \<in> set (priority_queue_py st)" and ne: "(d, n) \<noteq> (cd, cn)"
    by auto
  from dk have "inj_on pair_key (set (priority_queue_py st))"
    by (simp add: distinct_map)
  with m h(1) ne have k: "pair_key (d, n) \<noteq> pair_key (cd, cn)"
    by (auto dest: inj_onD)
  from popped_pair_least [OF assms(1,2,3) m] have "number_less cd d \<or> (number_eq cd d \<and> cn \<le> n)" .
  moreover have "cn \<noteq> n" if "number_eq cd d"
  proof -
    from loop_reach_py_queue_numbers [OF assms(1)] m h(1) have
      a: "exact cd \<noteq> Not_a_number" and b: "exact d \<noteq> Not_a_number"
      by (auto simp: queue_numbers_def)
    from that have "double_key (exact cd) = double_key (exact d)"
      by (simp add: number_eq_def double_eq_key [OF a b])
    with k show ?thesis by (auto simp: pair_key_def)
  qed
  ultimately show ?thesis by auto
qed

text \<open>
  C8 as stated fails: two runs on new objects, on the same graph and from the same
  start node, can return different traces. The \<^verbatim>\<open>visit_node\<close> events hold
  \<^verbatim>\<open>list(visited)\<close>, the order of which is that of the interpreter's hash table; a run
  that lists the set as \<^verbatim>\<open>['A', 'B']\<close> and one that lists it as \<^verbatim>\<open>['B', 'A']\<close> return
  the same table and unequal traces.
\<close>

theorem fresh_runs_counterexample:
  "run_py insertion_order (init_engine_py tie_graph) ''A'' =
     Some (Inr ([(''A'', Py_int 0), (''B'', Py_int 1), (''C'', Py_int 1)], tie_trace),
           \<lparr>graph_py = tie_graph, steps_py = tie_trace\<rparr>)
   \<and> run_py rev (init_engine_py tie_graph) ''A'' =
     Some (Inr ([(''A'', Py_int 0), (''B'', Py_int 1), (''C'', Py_int 1)], tie_trace_reversed),
           \<lparr>graph_py = tie_graph, steps_py = tie_trace_reversed\<rparr>)
   \<and> tie_trace \<noteq> tie_trace_reversed"
proof (intro conjI)
  show "run_py insertion_order (init_engine_py tie_graph) ''A'' =
     Some (Inr ([(''A'', Py_int 0), (''B'', Py_int 1), (''C'', Py_int 1)], tie_trace),
           \<lparr>graph_py = tie_graph, steps_py = tie_trace\<rparr>)"
    by code_simp
  show "run_py rev (init_engine_py tie_graph) ''A'' =
     Some (Inr ([(''A'', Py_int 0), (''B'', Py_int 1), (''C'', Py_int 1)], tie_trace_reversed),
           \<lparr>graph_py = tie_graph, steps_py = tie_trace_reversed\<rparr>)"
    by code_simp
  show "tie_trace \<noteq> tie_trace_reversed"
    by (simp add: tie_trace_def tie_trace_reversed_def)
qed

text \<open>
  C8, amended. A call on a new object returns, whatever the graph, the start node and
  the order in which the interpreter lists a set. Its result is the result of the run
  that lists every set in the order of insertion, with the visited nodes of each
  \<^verbatim>\<open>visit_node\<close> event listed in the interpreter's order instead. So two runs on new
  objects, on the same graph and from the same start node, leave the graph as it was,
  end alike (the same exception, or the same distance table), and leave traces that are
  equal once the visited nodes of every event are put in ascending order: the traces
  differ in the order of these lists at most. At every test of the \<^verbatim>\<open>while\<close> condition
  with a non-empty queue, the pair that \<^verbatim>\<open>heappop\<close> returns is in the queue, every pair
  of the queue has a larger distance, or an equal distance and a node identifier that
  is not smaller, and every pair that stays in the queue has a larger distance, or an
  equal distance and a larger node identifier (the pair returned is the only least one,
  whatever the layout of the heap). When its node is not visited yet, the next event
  of the trace is the \<^verbatim>\<open>visit_node\<close> event of that node.
\<close>

theorem fresh_runs_agree:
  "(\<exists>x. run_py enum (init_engine_py g) start_node = Some x) \<and>
   run_py enum (init_engine_py g) start_node =
     map_option (reordered enum) (run_py insertion_order (init_engine_py g) start_node) \<and>
   (enumeration enum1 \<longrightarrow> enumeration enum2 \<longrightarrow>
    run_py enum1 (init_engine_py g) start_node = Some (r1, e1) \<longrightarrow>
    run_py enum2 (init_engine_py g) start_node = Some (r2, e2) \<longrightarrow>
      graph_py e1 = g \<and> graph_py e2 = g \<and>
      map sorted_nodes (steps_py e1) = map sorted_nodes (steps_py e2) \<and>
      (case r1 of
         Inl err \<Rightarrow> r2 = Inl err
       | Inr (d, tr) \<Rightarrow> tr = steps_py e1 \<and> r2 = Inr (d, steps_py e2))) \<and>
   (loop_reach_py enum (init_state_py (init_engine_py g) start_node) st \<longrightarrow>
    priority_queue_py st \<noteq> [] \<longrightarrow>
    heappop_py (priority_queue_py st) = ((cd, cn), q) \<longrightarrow>
      (cd, cn) \<in> set (priority_queue_py st) \<and>
      (\<forall>(d, n) \<in> set (priority_queue_py st). number_less cd d \<or> (number_eq cd d \<and> cn \<le> n)) \<and>
      (\<forall>(d, n) \<in> set q. number_less cd d \<or> (number_eq cd d \<and> cn < n)) \<and>
      (cn \<notin> set (visited_py st) \<longrightarrow>
         take (Suc (length (steps_py st))) (steps_after (iteration_py enum st)) =
           steps_py st @ [Visit_node_py cn (distances_py st) (enum (visited_py st @ [cn]))]))"
proof (intro conjI impI)
  show "\<exists>x. run_py enum (init_engine_py g) start_node = Some x"
    by (rule run_py_total)
  show "run_py enum (init_engine_py g) start_node =
     map_option (reordered enum) (run_py insertion_order (init_engine_py g) start_node)"
    by (rule run_py_reordered)
next
  assume en: "enumeration enum1" "enumeration enum2"
    and r1: "run_py enum1 (init_engine_py g) start_node = Some (r1, e1)"
    and r2: "run_py enum2 (init_engine_py g) start_node = Some (r2, e2)"
  from run_py_graph [OF r1] show "graph_py e1 = g" by (simp add: init_engine_py_def)
  from run_py_graph [OF r2] show "graph_py e2 = g" by (simp add: init_engine_py_def)
  from r1 obtain r0 e0 where
    r0: "run_py insertion_order (init_engine_py g) start_node = Some (r0, e0)"
    and x1: "(r1, e1) = reordered enum1 (r0, e0)"
    by (subst (asm) run_py_reordered) auto
  from r2 r0 have x2: "(r2, e2) = reordered enum2 (r0, e0)"
    by (subst (asm) run_py_reordered) auto
  have s: "map sorted_nodes (map (reorder enum1) tr) = map sorted_nodes (map (reorder enum2) tr)"
    for tr :: "'a event_py list"
    by (simp add: sorted_nodes_reorder [OF en(1)] sorted_nodes_reorder [OF en(2)])
  from x1 x2 s [of "steps_py e0"]
  show "map sorted_nodes (steps_py e1) = map sorted_nodes (steps_py e2)"
    by (simp add: reordered_def)
  show "case r1 of Inl err \<Rightarrow> r2 = Inl err
     | Inr (d, tr) \<Rightarrow> tr = steps_py e1 \<and> r2 = Inr (d, steps_py e2)"
  proof (cases r0)
    case (Inl err)
    with x1 x2 show ?thesis by (simp add: reordered_def)
  next
    case (Inr p)
    obtain d tr where p: "p = (d, tr)" by (cases p)
    from run_py_trace [OF r0 [unfolded Inr p]] have "tr = steps_py e0" .
    with x1 x2 Inr p show ?thesis by (simp add: reordered_def)
  qed
next
  assume l: "loop_reach_py enum (init_state_py (init_engine_py g) start_node) st"
    and q: "priority_queue_py st \<noteq> []"
    and p: "heappop_py (priority_queue_py st) = ((cd, cn), q)"
  from heappop_py_in(1) [OF q p] show "(cd, cn) \<in> set (priority_queue_py st)" .
  from popped_pair_least [OF l q p]
  show "\<forall>(d, n) \<in> set (priority_queue_py st). number_less cd d \<or> (number_eq cd d \<and> cn \<le> n)"
    by blast
  from popped_pair_strict [OF l q p]
  show "\<forall>(d, n) \<in> set q. number_less cd d \<or> (number_eq cd d \<and> cn < n)"
    by blast
  assume "cn \<notin> set (visited_py st)"
  from iteration_py_next_event [OF q p this]
  show "take (Suc (length (steps_py st))) (steps_after (iteration_py enum st)) =
      steps_py st @ [Visit_node_py cn (distances_py st) (enum (visited_py st @ [cn]))]" .
qed
text \<open>
  On the graph with a tie, for the orders \<^const>\<open>insertion_order\<close> and \<^const>\<open>rev\<close>: the
  traces differ in the lists of the second and third \<^verbatim>\<open>visit_node\<close> events only. After
  the pass for \<^verbatim>\<open>A\<close> the queue holds \<^verbatim>\<open>(1, 'C')\<close> and \<^verbatim>\<open>(1, 'B')\<close>; \<^verbatim>\<open>(1, 'B')\<close> is popped,
  and the next event is the visit of \<^verbatim>\<open>B\<close>.
\<close>

theorem fresh_runs_agree_witness:
  "enumeration (insertion_order :: string list \<Rightarrow> string list)
   \<and> enumeration (rev :: string list \<Rightarrow> string list)
   \<and> run_py insertion_order (init_engine_py tie_graph) ''A'' =
       Some (Inr ([(''A'', Py_int 0), (''B'', Py_int 1), (''C'', Py_int 1)], tie_trace),
             \<lparr>graph_py = tie_graph, steps_py = tie_trace\<rparr>)
   \<and> run_py rev (init_engine_py tie_graph) ''A'' =
       Some (Inr ([(''A'', Py_int 0), (''B'', Py_int 1), (''C'', Py_int 1)], tie_trace_reversed),
             \<lparr>graph_py = tie_graph, steps_py = tie_trace_reversed\<rparr>)
   \<and> map sorted_nodes (steps_py \<lparr>graph_py = tie_graph, steps_py = tie_trace\<rparr>) =
       map sorted_nodes (steps_py \<lparr>graph_py = tie_graph, steps_py = tie_trace_reversed\<rparr>)
   \<and> loop_reach_py rev (init_state_py (init_engine_py tie_graph) ''A'') tie_state
   \<and> priority_queue_py tie_state \<noteq> []
   \<and> heappop_py (priority_queue_py tie_state) = ((Py_int 1, ''B''), [(Py_int 1, ''C'')])
   \<and> (Py_int 1, ''C'') \<in> set (priority_queue_py tie_state)
   \<and> (number_less (Py_int 1) (Py_int 1) \<or> number_eq (Py_int 1) (Py_int 1) \<and> ''B'' \<le> ''C'')
   \<and> (Py_int 1, ''C'') \<in> set [(Py_int 1, ''C'')]
   \<and> (number_less (Py_int 1) (Py_int 1) \<or> number_eq (Py_int 1) (Py_int 1) \<and> ''B'' < ''C'')
   \<and> ''B'' \<notin> set (visited_py tie_state)
   \<and> take (Suc (length (steps_py tie_state))) (steps_after (iteration_py rev tie_state)) =
       steps_py tie_state @
         [Visit_node_py ''B'' (distances_py tie_state) (rev (visited_py tie_state @ [''B'']))]"
proof -
  have e1: "enumeration (insertion_order :: string list \<Rightarrow> string list)"
    by (simp add: enumeration_def insertion_order_def)
  have e2: "enumeration (rev :: string list \<Rightarrow> string list)"
    by (simp add: enumeration_def)
  have r1: "run_py insertion_order (init_engine_py tie_graph) ''A'' =
       Some (Inr ([(''A'', Py_int 0), (''B'', Py_int 1), (''C'', Py_int 1)], tie_trace),
             \<lparr>graph_py = tie_graph, steps_py = tie_trace\<rparr>)"
    by code_simp
  have r2: "run_py rev (init_engine_py tie_graph) ''A'' =
       Some (Inr ([(''A'', Py_int 0), (''B'', Py_int 1), (''C'', Py_int 1)], tie_trace_reversed),
             \<lparr>graph_py = tie_graph, steps_py = tie_trace_reversed\<rparr>)"
    by code_simp
  have i: "iteration_py rev (init_state_py (init_engine_py tie_graph) ''A'') = Inr tie_state"
    by code_simp
  have "priority_queue_py (init_state_py (init_engine_py tie_graph) ''A'') \<noteq> []"
    by (simp add: init_state_py_def)
  from loop_pass_py [OF loop_start_py this i]
  have l: "loop_reach_py rev (init_state_py (init_engine_py tie_graph) ''A'') tie_state" .
  have q: "priority_queue_py tie_state \<noteq> []"
    by (simp add: tie_state_def)
  have p: "heappop_py (priority_queue_py tie_state) = ((Py_int 1, ''B''), [(Py_int 1, ''C'')])"
    by code_simp
  have m: "(Py_int 1, ''C'') \<in> set (priority_queue_py tie_state)"
    by (simp add: tie_state_def)
  have v: "''B'' \<notin> set (visited_py tie_state)"
    by (simp add: tie_state_def)
  note t = fresh_runs_agree [where enum = rev and g = tie_graph and start_node = "''A''"
      and ?enum1.0 = insertion_order and ?enum2.0 = rev and st = tie_state]
  note a = t [THEN conjunct2, THEN conjunct2, THEN conjunct1, rule_format, OF e1 e2 r1 r2]
  note b = t [THEN conjunct2, THEN conjunct2, THEN conjunct2, rule_format, OF l q p]
  from b [THEN conjunct2, THEN conjunct1] m
  have c: "number_less (Py_int 1) (Py_int 1) \<or> number_eq (Py_int 1) (Py_int 1) \<and> ''B'' \<le> ''C''"
    by blast
  have m': "(Py_int 1, ''C'') \<in> set [(Py_int 1, ''C'')]"
    by simp
  from b [THEN conjunct2, THEN conjunct2, THEN conjunct1] m'
  have c': "number_less (Py_int 1) (Py_int 1) \<or> number_eq (Py_int 1) (Py_int 1) \<and> ''B'' < ''C''"
    by blast
  show ?thesis
    by (intro conjI)
      (rule e1, rule e2, rule r1, rule r2,
       rule a [THEN conjunct2, THEN conjunct2, THEN conjunct1],
       rule l, rule q, rule p, rule m, rule c, rule m', rule c', rule v,
       rule b [THEN conjunct2, THEN conjunct2, THEN conjunct2, rule_format, OF v])
qed

section \<open>Integer weights among Python's numbers\<close>

text \<open>
  On a graph whose weights are integers, a run of the second reading does what the run
  of the first reading does, state by state: the same pairs are popped, the same
  entries are updated, the same events are appended and the same exception is raised,
  whatever the order in which the interpreter lists a set.
\<close>

lemma map_of_table_of_int: "map_of (table_of_int t) n = map_option number_of (map_of t n)"
  by (induction t) (auto simp: table_of_int_def)

lemma map_of_graph_of_int:
  "map_of (graph_of_int g) u = map_option (map (\<lambda>(v, w). (v, Py_int w))) (map_of g u)"
  by (induction g) (auto simp: graph_of_int_def)

lemma update_table_of_int:
  "AList.update n (number_of d) (table_of_int t) = table_of_int (AList.update n d t)"
  by (induction t) (auto simp: table_of_int_def)

lemma number_less_of_int: "number_less (Py_int a) (number_of old) \<longleftrightarrow> Finite a < old"
  by (cases old) (simp_all add: number_less_def exact_def number_of_def)

lemma pair_less_of_int: "pair_less (Py_int a, n) (Py_int b, m) \<longleftrightarrow> (a, n) < (b, m)"
  by (auto simp: pair_less_def number_eq_def number_less_def exact_def)

lemma least_pair_of_int:
  "least_pair (Py_int a, n) (queue_of_int ys) = (\<lambda>(d, n). (Py_int d, n)) (fold min ys (a, n))"
proof (induction ys arbitrary: a n)
  case Nil
  show ?case by (simp add: queue_of_int_def)
next
  case (Cons y ys)
  obtain b m where y: "y = (b, m)" by (cases y)
  let ?x = "if (b, m) < (a, n) then (b, m) else (a, n)"
  have x: "?x = min (b, m) (a, n)"
    by (auto simp: min_def)
  obtain c k where c: "?x = (c, k)" by (cases ?x)
  then have i: "(if (b, m) < (a, n) then (Py_int b, m) else (Py_int a, n)) = (Py_int c, k)"
    by (auto split: if_splits)
  from Cons.IH [of c k] show ?case
    by (simp add: y queue_of_int_def pair_less_of_int i x [symmetric] c del: less_prod_simp)
qed

lemma remove1_queue_of_int:
  "remove1 (Py_int d, n) (queue_of_int q) = queue_of_int (remove1 (d, n) q)"
  by (induction q) (auto simp: queue_of_int_def)

lemma heappop_py_of_int:
  assumes "q \<noteq> []" and "heappop q = ((cd, cn), q')"
  shows "heappop_py (queue_of_int q) = ((Py_int cd, cn), queue_of_int q')"
proof -
  obtain a n ys where q: "q = (a, n) # ys"
    using assms(1) by (cases q) auto
  have "min_list q = Min (set q)"
    by (rule min_list_Min [OF assms(1)])
  also have "\<dots> = fold min ys (a, n)"
    unfolding q by (rule Min.set_eq_fold)
  finally have "min_list q = fold min ys (a, n)" .
  with assms(2) have m: "fold min ys (a, n) = (cd, cn)" and q': "q' = remove1 (cd, cn) q"
    by (auto simp: heappop_def)
  have "least_pair (hd (queue_of_int q)) (tl (queue_of_int q)) = (Py_int cd, cn)"
    using least_pair_of_int [of a n ys] by (simp add: q queue_of_int_def m)
  then show ?thesis
    by (simp add: heappop_py_def Let_def q' remove1_queue_of_int)
qed

lemma same_engine_of:
  "same_state st' st \<Longrightarrow> same_engine (engine_of_py st') (engine_of st)"
  by (simp add: same_state_def same_engine_def engine_of_py_def engine_of_def)

lemma relax_edge_py_of_int:
  assumes "same_state st' st"
  shows "same_pass (relax_edge_py cn (Py_int cd) (nb, Py_int w) st') (relax_edge cn cd (nb, w) st)"
proof (cases "nb \<in> visited st")
  case True
  with assms show ?thesis
    by (simp add: relax_edge_py_def relax_edge_def same_state_def)
next
  case False
  show ?thesis
  proof (cases "map_of (distances st) nb")
    case None
    with False assms same_engine_of [OF assms] show ?thesis
      by (simp add: relax_edge_py_def relax_edge_def same_state_def number_add_def
          map_of_table_of_int)
  next
    case (Some old)
    have u: "AList.update nb (Py_int (cd + w)) (table_of_int (distances st)) =
        table_of_int (AList.update nb (Finite (cd + w)) (distances st))"
      using update_table_of_int [of nb "Finite (cd + w)"] by (simp add: number_of_def)
    from False Some assms show ?thesis
      by (simp add: relax_edge_py_def relax_edge_def same_state_def number_add_def
          map_of_table_of_int number_less_of_int heappush_py_def heappush_def Let_def u
          queue_of_int_def list_all2_appendI)
  qed
qed

lemma relax_edges_py_of_int:
  assumes "same_state st' st"
  shows "same_pass (relax_edges_py cn (Py_int cd) (map (\<lambda>(v, w). (v, Py_int w)) nbrs) st')
    (relax_edges cn cd nbrs st)"
  using assms
proof (induction nbrs arbitrary: st' st)
  case Nil
  then show ?case by simp
next
  case (Cons item rest)
  obtain nb w where item: "item = (nb, w)" by (cases item)
  from relax_edge_py_of_int [OF Cons.prems, of cn cd nb w] show ?case
  proof (cases "relax_edge_py cn (Py_int cd) (nb, Py_int w) st'"; cases "relax_edge cn cd (nb, w) st")
    fix x' x
    assume "relax_edge_py cn (Py_int cd) (nb, Py_int w) st' = Inl x'"
      "relax_edge cn cd (nb, w) st = Inl x"
      "same_pass (relax_edge_py cn (Py_int cd) (nb, Py_int w) st') (relax_edge cn cd (nb, w) st)"
    then show ?thesis by (simp add: item)
  next
    fix st1' st1
    assume a: "relax_edge_py cn (Py_int cd) (nb, Py_int w) st' = Inr st1'"
      "relax_edge cn cd (nb, w) st = Inr st1"
      and "same_pass (relax_edge_py cn (Py_int cd) (nb, Py_int w) st') (relax_edge cn cd (nb, w) st)"
    then have "same_state st1' st1" by simp
    from Cons.IH [OF this] a show ?thesis by (simp add: item)
  qed simp_all
qed

lemma iteration_py_of_int:
  assumes "same_state st' st" and "priority_queue st \<noteq> []" and "\<And>h. set (enum h) = set h"
  shows "same_pass (iteration_py enum st') (iteration st)"
proof -
  obtain cd cn q where p: "heappop (priority_queue st) = ((cd, cn), q)"
    by (metis surj_pair)
  from heappop_py_of_int [OF assms(2) p] assms(1)
  have p': "heappop_py (priority_queue_py st') = ((Py_int cd, cn), queue_of_int q)"
    by (simp add: same_state_def)
  show ?thesis
  proof (cases "cn \<in> visited st")
    case True
    with p p' assms(1) show ?thesis
      by (simp add: iteration_py_def iteration_def same_state_def)
  next
    case False
    let ?st1 = "st\<lparr>priority_queue := q, visited := insert cn (visited st),
        steps := steps st @ [Visit_node cn (distances st) (insert cn (visited st))]\<rparr>"
    let ?st1' = "st'\<lparr>priority_queue_py := queue_of_int q, visited_py := visited_py st' @ [cn],
        steps_py := steps_py st' @
          [Visit_node_py cn (distances_py st') (enum (visited_py st' @ [cn]))]\<rparr>"
    from assms(1,3) have s: "same_state ?st1' ?st1"
      by (simp add: same_state_def list_all2_appendI)
    show ?thesis
    proof (cases "map_of (graph st) cn")
      case None
      with False p p' assms(1) same_engine_of [OF s] show ?thesis
        by (simp add: iteration_py_def iteration_def Let_def map_of_graph_of_int same_state_def)
    next
      case (Some nbrs)
      with False p p' assms(1) relax_edges_py_of_int [OF s, of cn cd nbrs] show ?thesis
        by (simp add: iteration_py_def iteration_def Let_def map_of_graph_of_int same_state_def)
    qed
  qed
qed

lemma main_loop_py_of_int:
  assumes "same_state st' st" and "\<And>h. set (enum h) = set h"
  shows "\<exists>r' r. main_loop_py enum st' = Some r' \<and> main_loop st = Some r \<and> same_pass r' r"
  using assms(1)
proof (induction "pending st" arbitrary: st' st rule: less_induct)
  case less
  from less.prems have q: "priority_queue_py st' = [] \<longleftrightarrow> priority_queue st = []"
    by (simp add: same_state_def queue_of_int_def)
  show ?case
  proof (cases "priority_queue st = []")
    case True
    with q less.prems show ?thesis
      by (simp add: main_loop_py.simps [of enum st'] main_loop.simps [of st])
  next
    case False
    note i = iteration_py_of_int [OF less.prems False assms(2)]
    show ?thesis
    proof (cases "iteration st")
      case (Inl x)
      with i obtain x' where "iteration_py enum st' = Inl x'" "same_pass (Inl x') (Inl x)"
        by (cases "iteration_py enum st'") auto
      with False q Inl show ?thesis
        by (simp add: main_loop_py.simps [of enum st'] main_loop.simps [of st])
    next
      case (Inr st1)
      with i obtain st1' where i': "iteration_py enum st' = Inr st1'" and s: "same_state st1' st1"
        by (cases "iteration_py enum st'") auto
      from less.hyps [OF iteration_pending [OF False Inr] s] False q Inr i' show ?thesis
        by (simp add: main_loop_py.simps [of enum st'] main_loop.simps [of st])
    qed
  qed
qed

lemma integer_weights_agree:
  assumes "\<And>h. set (enum h) = set h"
  shows "\<exists>x' x. run_py enum (init_engine_py (graph_of_int g)) s = Some x' \<and>
    run (init_engine g) s = Some x \<and> same_result x' x"
proof -
  have t: "map (\<lambda>(node, _). (node, Py_float Pos_inf)) (graph_of_int g) =
      table_of_int (map (\<lambda>(node, _). (node, Infinity)) g)"
    by (induction g) (auto simp: graph_of_int_def table_of_int_def number_of_def)
  have "same_state (init_state_py (init_engine_py (graph_of_int g)) s)
      (init_state (init_engine g) s)"
    using update_table_of_int [of s "Finite 0" "map (\<lambda>(node, _). (node, Infinity)) g"]
    by (simp add: same_state_def init_state_py_def init_state_def init_engine_py_def
        init_engine_def t queue_of_int_def number_of_def)
  from main_loop_py_of_int [OF this assms] obtain r' r where
    m: "main_loop_py enum (init_state_py (init_engine_py (graph_of_int g)) s) = Some r'"
       "main_loop (init_state (init_engine g) s) = Some r"
    and s: "same_pass r' r"
    by blast
  from s show ?thesis
  proof (cases r'; cases r)
    fix x' x
    assume "r' = Inl x'" "r = Inl x"
    with m s show ?thesis
      by (cases x'; cases x) (simp add: run_py_def run_def)
  next
    fix st' st
    assume "r' = Inr st'" "r = Inr st"
    with m s same_engine_of [of st' st] show ?thesis
      by (simp add: run_py_def run_def) (simp add: same_state_def)
  qed simp_all
qed

end
